theory Spec2Isabelle
  imports Main "HOL-Library.Multiset"
begin

section \<open>GLib integer types\<close>

text \<open>
  \<^verbatim>\<open>guint\<close> is an unsigned 32-bit integer and \<^verbatim>\<open>gsize\<close> an unsigned 64-bit one.
  Both are modelled as natural numbers with the wrap-around of C written out.
\<close>

definition guint :: "nat \<Rightarrow> nat" where
  "guint n = n mod 2 ^ 32"

definition guint_add :: "nat \<Rightarrow> nat \<Rightarrow> nat" where
  "guint_add a b = (a + b) mod 2 ^ 32"

definition guint_sub :: "nat \<Rightarrow> nat \<Rightarrow> nat" where
  "guint_sub a b = (a + (2 ^ 32 - b mod 2 ^ 32)) mod 2 ^ 32"

definition gsize_sub :: "nat \<Rightarrow> nat \<Rightarrow> nat" where
  "gsize_sub a b = (a + (2 ^ 64 - b mod 2 ^ 64)) mod 2 ^ 64"

section \<open>The collaborators: list model and sorter\<close>

text \<open>
  A \<^verbatim>\<open>GListModel\<close> is an object shared with its owner. \<open>model_id\<close> stands for the
  address of the object (pointer comparison is comparison of ids) and \<open>model_items\<close>
  for the element handles it currently holds.
\<close>

record 'a g_list_model =
  model_id :: nat
  model_items :: "'a list"

definition g_list_model_get_n_items :: "'a g_list_model \<Rightarrow> nat" where
  "g_list_model_get_n_items m = guint (length (model_items m))"

text \<open>A handle is a pointer: \<open>None\<close> is \<^verbatim>\<open>NULL\<close>.\<close>

definition g_list_model_get_item :: "'a g_list_model \<Rightarrow> nat \<Rightarrow> 'a option" where
  "g_list_model_get_item m i =
     (if i < length (model_items m) then Some (model_items m ! i) else None)"

datatype gtk_ordering = GTK_ORDERING_SMALLER | GTK_ORDERING_EQUAL | GTK_ORDERING_LARGER

datatype gtk_sorter_order =
  GTK_SORTER_ORDER_PARTIAL | GTK_SORTER_ORDER_NONE | GTK_SORTER_ORDER_TOTAL

text \<open>
  A \<^verbatim>\<open>GtkSorter\<close> is used through its comparison of two handles and its order.
  Both are parameters of the development.
\<close>

record 'a gtk_sorter =
  sorter_compare :: "'a option \<Rightarrow> 'a option \<Rightarrow> gtk_ordering"
  sorter_order :: gtk_sorter_order

definition gtk_sorter_get_order :: "'a gtk_sorter \<Rightarrow> gtk_sorter_order" where
  "gtk_sorter_get_order s = sorter_order s"

text \<open>The comparison of a \<^verbatim>\<open>NULL\<close> sorter is taken to be \<^verbatim>\<open>GTK_ORDERING_EQUAL\<close>.\<close>

definition gtk_sorter_compare ::
  "'a gtk_sorter option \<Rightarrow> 'a option \<Rightarrow> 'a option \<Rightarrow> gtk_ordering" where
  "gtk_sorter_compare s a b =
     (case s of None \<Rightarrow> GTK_ORDERING_EQUAL | Some srt \<Rightarrow> sorter_compare srt a b)"

section \<open>Sort items and the sort array\<close>

record 'a sort_item =
  item :: "'a option"
  position :: nat

text \<open>
  \<^verbatim>\<open>sort_item_clear\<close> drops the reference the item holds (\<^verbatim>\<open>g_clear_object\<close>):
  the handle, when there is one, is appended to the log of released references and the
  field becomes \<^verbatim>\<open>NULL\<close>.
\<close>

definition sort_item_clear :: "'a sort_item \<Rightarrow> 'a list \<Rightarrow> 'a sort_item \<times> 'a list" where
  "sort_item_clear si rel =
     (si\<lparr>item := None\<rparr>, rel @ (case item si of None \<Rightarrow> [] | Some h \<Rightarrow> [h]))"

text \<open>
  The array type is generated from \<^verbatim>\<open>gdk/gdkarrayimpl.c\<close> with \<^verbatim>\<open>SortItem\<close>
  elements held by value and \<^verbatim>\<open>sort_item_clear\<close> as the function that frees an element.
  It is a list here. \<open>sort_array_free_items\<close> is what the array does to the elements it
  gives up.
\<close>

fun sort_array_free_items :: "'a sort_item list \<Rightarrow> 'a list \<Rightarrow> 'a list" where
  "sort_array_free_items [] rel = rel"
| "sort_array_free_items (si # sis) rel = sort_array_free_items sis (snd (sort_item_clear si rel))"

definition sort_array_get_size :: "'a sort_item list \<Rightarrow> nat" where
  "sort_array_get_size arr = length arr"

definition sort_array_is_empty :: "'a sort_item list \<Rightarrow> bool" where
  "sort_array_is_empty arr = (arr = [])"

definition sort_array_append :: "'a sort_item list \<Rightarrow> 'a sort_item \<Rightarrow> 'a sort_item list" where
  "sort_array_append arr si = arr @ [si]"

definition sort_array_set_size ::
  "'a sort_item list \<Rightarrow> nat \<Rightarrow> 'a list \<Rightarrow> 'a sort_item list \<times> 'a list" where
  "sort_array_set_size arr new_size rel =
     (if new_size \<le> length arr
      then (take new_size arr, sort_array_free_items (drop new_size arr) rel)
      else (arr @ replicate (new_size - length arr) \<lparr>item = None, position = 0\<rparr>, rel))"

definition sort_array_clear :: "'a sort_item list \<Rightarrow> 'a list \<Rightarrow> 'a sort_item list \<times> 'a list" where
  "sort_array_clear arr rel = ([], sort_array_free_items arr rel)"

section \<open>The sort engine\<close>

text \<open>
  \<^verbatim>\<open>GtkTimSortRun\<close>: a range of the array, its base as an index into the array.
\<close>

record gtk_tim_sort_run =
  run_base :: nat
  run_len :: nat

text \<open>
  \<^verbatim>\<open>GtkTimSort\<close>: the lengths of the pending runs, the most recent first (they cover
  a prefix of the array), the bound on the size of a merge (0 for none) and the data
  handed to the comparison function, which is the sorter.
\<close>

record 'a gtk_tim_sort =
  pending_runs :: "nat list"
  max_merge_size :: nat
  sort_data :: "'a gtk_sorter option"

text \<open>
  \<^verbatim>\<open>sort_func\<close>, the comparison the model hands to the engine: it compares the handles
  of two items with the sorter passed as data.
\<close>

definition sort_func :: "'a sort_item \<Rightarrow> 'a sort_item \<Rightarrow> 'a gtk_sorter option \<Rightarrow> gtk_ordering" where
  "sort_func sa sb data = gtk_sorter_compare data (item sa) (item sb)"

text \<open>
  Modelled from the spec: the run-merge engine of \<^verbatim>\<open>gtktimsortprivate.h\<close>, which is not
  among the sources. The spec gives it as a contract: an adaptive stable merge sort over a
  mutable buffer and a comparator, that is stepped, that can be initialised from a
  run-length decomposition, that can be abandoned and have its runs read, and whose merges
  are bounded by a chunk size when one is set. The model: a step first looks for the next
  natural run (a maximal non-descending stretch) of the part of the array not yet covered
  by a run and moves nothing; once the runs cover the array it merges the two most recent
  runs, stably, and reports the range of the merge; with a bound \<open>m\<close> on the merge size,
  and the shorter of the two runs longer than \<open>m\<close>, only \<open>m\<close> elements of the shorter run
  take part in the merge. A step returns \<open>False\<close> when nothing is left to do.
\<close>

fun count_run :: "('b \<Rightarrow> 'b \<Rightarrow> bool) \<Rightarrow> 'b list \<Rightarrow> nat" where
  "count_run le [] = 0"
| "count_run le [x] = 1"
| "count_run le (x # y # ys) = (if le x y then Suc (count_run le (y # ys)) else 1)"

fun merge_runs :: "('b \<Rightarrow> 'b \<Rightarrow> bool) \<Rightarrow> 'b list \<Rightarrow> 'b list \<Rightarrow> 'b list" where
  "merge_runs le [] ys = ys"
| "merge_runs le xs [] = xs"
| "merge_runs le (x # xs) (y # ys) =
     (if le x y then x # merge_runs le xs (y # ys) else y # merge_runs le (x # xs) ys)"

definition merge_at :: "('b \<Rightarrow> 'b \<Rightarrow> bool) \<Rightarrow> 'b list \<Rightarrow> nat \<Rightarrow> nat \<Rightarrow> nat \<Rightarrow> 'b list" where
  "merge_at le arr b n1 n2 =
     take b arr @ merge_runs le (take n1 (drop b arr)) (take n2 (drop (b + n1) arr))
       @ drop (b + n1 + n2) arr"

definition tim_sort_le :: "'a gtk_tim_sort \<Rightarrow> 'a sort_item \<Rightarrow> 'a sort_item \<Rightarrow> bool" where
  "tim_sort_le ts a b = (sort_func a b (sort_data ts) \<noteq> GTK_ORDERING_LARGER)"

definition gtk_tim_sort_init :: "'a gtk_sorter option \<Rightarrow> 'a gtk_tim_sort" where
  "gtk_tim_sort_init data = \<lparr>pending_runs = [], max_merge_size = 0, sort_data = data\<rparr>"

definition gtk_tim_sort_set_runs :: "'a gtk_tim_sort \<Rightarrow> nat list \<Rightarrow> 'a gtk_tim_sort" where
  "gtk_tim_sort_set_runs ts runs =
     ts\<lparr>pending_runs := rev (takeWhile (\<lambda>r. r \<noteq> 0) runs) @ pending_runs ts\<rparr>"

definition gtk_tim_sort_get_runs :: "'a gtk_tim_sort \<Rightarrow> nat list" where
  "gtk_tim_sort_get_runs ts = rev (pending_runs ts) @ [0]"

definition gtk_tim_sort_set_max_merge_size :: "'a gtk_tim_sort \<Rightarrow> nat \<Rightarrow> 'a gtk_tim_sort" where
  "gtk_tim_sort_set_max_merge_size ts m = ts\<lparr>max_merge_size := m\<rparr>"

definition gtk_tim_sort_finish :: "'a gtk_tim_sort \<Rightarrow> 'a gtk_tim_sort" where
  "gtk_tim_sort_finish ts = ts\<lparr>pending_runs := []\<rparr>"

definition gtk_tim_sort_step ::
  "'a gtk_tim_sort \<Rightarrow> 'a sort_item list
     \<Rightarrow> bool \<times> gtk_tim_sort_run \<times> 'a sort_item list \<times> 'a gtk_tim_sort" where
  "gtk_tim_sort_step ts arr =
     (let scanned = sum_list (pending_runs ts); m = max_merge_size ts in
      if scanned < length arr then
        (True, \<lparr>run_base = scanned, run_len = 0\<rparr>, arr,
         ts\<lparr>pending_runs := count_run (tim_sort_le ts) (drop scanned arr) # pending_runs ts\<rparr>)
      else
        (case pending_runs ts of
           l2 # l1 # rs \<Rightarrow>
             (let base1 = sum_list rs in
              if l1 \<le> l2 \<and> m \<noteq> 0 \<and> m < l1 then
                (True, \<lparr>run_base = base1 + (l1 - m), run_len = m + l2\<rparr>,
                 merge_at (tim_sort_le ts) arr (base1 + (l1 - m)) m l2,
                 ts\<lparr>pending_runs := (l2 + m) # (l1 - m) # rs\<rparr>)
              else if l2 < l1 \<and> m \<noteq> 0 \<and> m < l2 then
                (True, \<lparr>run_base = base1, run_len = l1 + m\<rparr>,
                 merge_at (tim_sort_le ts) arr base1 l1 m,
                 ts\<lparr>pending_runs := (l2 - m) # (l1 + m) # rs\<rparr>)
              else
                (True, \<lparr>run_base = base1, run_len = l1 + l2\<rparr>,
                 merge_at (tim_sort_le ts) arr base1 l1 l2,
                 ts\<lparr>pending_runs := (l1 + l2) # rs\<rparr>))
         | _ \<Rightarrow> (False, \<lparr>run_base = 0, run_len = 0\<rparr>, arr, ts)))"

section \<open>The sort model\<close>

text \<open>
  \<^verbatim>\<open>struct _GtkTim2SortModel\<close>. \<open>emitted\<close> is the log of the \<^verbatim>\<open>items-changed\<close>
  signals the model has emitted, as (position, removed, added), and \<open>released\<close> the log
  of the handles whose reference the model has dropped.
\<close>

record 'a gtk_tim2_sort_model =
  model :: "'a g_list_model option"
  sorter :: "'a gtk_sorter option"
  incremental :: bool
  sort_ts :: "'a gtk_tim_sort"
  sort_cb :: nat
  items :: "'a sort_item list"
  emitted :: "(nat \<times> nat \<times> nat) list"
  released :: "'a list"

definition g_list_model_items_changed ::
  "'a gtk_tim2_sort_model \<Rightarrow> nat \<Rightarrow> nat \<Rightarrow> nat \<Rightarrow> 'a gtk_tim2_sort_model" where
  "g_list_model_items_changed self pos removed added =
     self\<lparr>emitted := emitted self @ [(pos, removed, added)]\<rparr>"

definition gtk_tim2_sort_model_get_n_items :: "'a gtk_tim2_sort_model \<Rightarrow> nat" where
  "gtk_tim2_sort_model_get_n_items self =
     (case model self of
        None \<Rightarrow> 0
      | Some m \<Rightarrow> g_list_model_get_n_items m)"

definition gtk_tim2_sort_model_get_item :: "'a gtk_tim2_sort_model \<Rightarrow> nat \<Rightarrow> 'a option" where
  "gtk_tim2_sort_model_get_item self pos =
     (case model self of
        None \<Rightarrow> None
      | Some m \<Rightarrow>
          if sort_array_is_empty (items self) then g_list_model_get_item m pos
          else if pos \<ge> sort_array_get_size (items self) then None
          else item (items self ! pos))"

definition gtk_tim2_sort_model_is_sorting :: "'a gtk_tim2_sort_model \<Rightarrow> bool" where
  "gtk_tim2_sort_model_is_sorting self = (sort_cb self \<noteq> 0)"

definition gtk_tim2_sort_model_should_sort :: "'a gtk_tim2_sort_model \<Rightarrow> bool" where
  "gtk_tim2_sort_model_should_sort self =
     (case sorter self of
        None \<Rightarrow> False
      | Some srt \<Rightarrow> model self \<noteq> None \<and> gtk_sorter_get_order srt \<noteq> GTK_SORTER_ORDER_NONE)"

section \<open>Driving the engine\<close>

datatype error = Assertion_failed

text \<open>
  \<^verbatim>\<open>gtk_tim2_sort_model_stop_sorting\<close>. \<open>want\<close> says that \<^verbatim>\<open>runs\<close> is not \<^verbatim>\<open>NULL\<close>;
  the second component of the result is what the call writes to \<^verbatim>\<open>runs\<close> (nothing, and
  the empty list here, when it is \<^verbatim>\<open>NULL\<close>).
\<close>

definition gtk_tim2_sort_model_stop_sorting ::
  "'a gtk_tim2_sort_model \<Rightarrow> bool \<Rightarrow> 'a gtk_tim2_sort_model \<times> nat list" where
  "gtk_tim2_sort_model_stop_sorting self want =
     (if sort_cb self = 0 then
        (self, if want then [sort_array_get_size (items self), 0] else [])
      else
        (self\<lparr>sort_ts := gtk_tim_sort_finish (sort_ts self), sort_cb := 0\<rparr>,
         if want then gtk_tim_sort_get_runs (sort_ts self) else []))"

text \<open>
  The loop of \<^verbatim>\<open>gtk_tim2_sort_model_sort_step\<close>. Pointers into the array are indexes.
  The clock is a parameter: \<open>slice\<close> is the number of engine steps after which
  \<^verbatim>\<open>g_get_monotonic_time ()\<close> has reached \<^verbatim>\<open>end_time\<close>; the test comes after a step, so
  at least one step runs. The last component of the result lists the changes the engine
  reported, in order; the code does not keep it, the statements about the loop do.
\<close>

function gtk_tim2_sort_model_sort_step_loop ::
  "bool \<Rightarrow> nat \<Rightarrow> 'a gtk_tim_sort \<Rightarrow> 'a sort_item list \<Rightarrow> bool \<Rightarrow> nat \<Rightarrow> nat
     \<Rightarrow> gtk_tim_sort_run list
     \<Rightarrow> 'a gtk_tim_sort \<times> 'a sort_item list \<times> bool \<times> nat \<times> nat \<times> gtk_tim_sort_run list" where
  "gtk_tim2_sort_model_sort_step_loop finish slice ts arr result start_change end_change seen =
     (let (stepped, change, arr', ts') = gtk_tim_sort_step ts arr in
      if \<not> stepped then (ts', arr', result, start_change, end_change, seen)
      else
        (let start_change' =
               (if run_len change \<noteq> 0 then min start_change (run_base change)
                else start_change);
             end_change' =
               (if run_len change \<noteq> 0 then max end_change (run_base change + run_len change)
                else end_change)
         in if slice \<le> 1 \<and> \<not> finish
            then (ts', arr', True, start_change', end_change', seen @ [change])
            else gtk_tim2_sort_model_sort_step_loop finish (slice - 1) ts' arr' True
                   start_change' end_change' (seen @ [change])))"
  by pat_completeness auto

definition gtk_tim2_sort_model_sort_step ::
  "'a gtk_tim2_sort_model \<Rightarrow> bool \<Rightarrow> nat \<Rightarrow> bool \<times> nat \<times> nat \<times> 'a gtk_tim2_sort_model" where
  "gtk_tim2_sort_model_sort_step self finish slice =
     (let end_change = 0;
          start_change = end_change + sort_array_get_size (items self);
          (ts', arr', result, start_change, end_change, seen) =
             gtk_tim2_sort_model_sort_step_loop finish slice (sort_ts self) (items self)
               False start_change end_change [];
          self = self\<lparr>sort_ts := ts', items := arr'\<rparr>
      in if start_change < end_change
         then (result, guint start_change, guint (end_change - start_change), self)
         else (result, 0, 0, self))"

text \<open>
  The idle callback. The first component of the result is \<open>True\<close> for
  \<^verbatim>\<open>G_SOURCE_CONTINUE\<close> and \<open>False\<close> for \<^verbatim>\<open>G_SOURCE_REMOVE\<close>.
\<close>

definition gtk_tim2_sort_model_sort_cb ::
  "nat \<Rightarrow> 'a gtk_tim2_sort_model \<Rightarrow> bool \<times> 'a gtk_tim2_sort_model" where
  "gtk_tim2_sort_model_sort_cb slice self =
     (let (stepped, pos, n_items, self) = gtk_tim2_sort_model_sort_step self False slice in
      if stepped then
        (True, if n_items \<noteq> 0 then g_list_model_items_changed self pos n_items n_items else self)
      else (False, fst (gtk_tim2_sort_model_stop_sorting self False)))"

text \<open>
  \<^verbatim>\<open>g_idle_add\<close> returns the id of the new source, which is never 0; it is 1 here.
\<close>

definition gtk_tim2_sort_model_start_sorting ::
  "'a gtk_tim2_sort_model \<Rightarrow> nat list option
     \<Rightarrow> error + (bool \<times> 'a gtk_tim2_sort_model)" where
  "gtk_tim2_sort_model_start_sorting self runs =
     (if sort_cb self \<noteq> 0 then Inl Assertion_failed
      else
        (let ts = gtk_tim_sort_init (sorter self);
             ts = (case runs of None \<Rightarrow> ts | Some rs \<Rightarrow> gtk_tim_sort_set_runs ts rs);
             ts = (if incremental self then gtk_tim_sort_set_max_merge_size ts 1024 else ts);
             self = self\<lparr>sort_ts := ts\<rparr>
         in if \<not> incremental self then Inr (False, self)
            else Inr (True, self\<lparr>sort_cb := 1\<rparr>)))"

definition gtk_tim2_sort_model_finish_sorting ::
  "'a gtk_tim2_sort_model \<Rightarrow> nat \<times> nat \<times> 'a gtk_tim2_sort_model" where
  "gtk_tim2_sort_model_finish_sorting self =
     (let self = self\<lparr>sort_ts := gtk_tim_sort_set_max_merge_size (sort_ts self) 0\<rparr>;
          (stepped, pos, n_items, self) = gtk_tim2_sort_model_sort_step self True 0;
          self = self\<lparr>sort_ts := gtk_tim_sort_finish (sort_ts self)\<rparr>;
          self = fst (gtk_tim2_sort_model_stop_sorting self False)
      in (pos, n_items, self))"

section \<open>The buffer\<close>

function clear_items_start :: "'a sort_item list \<Rightarrow> nat \<Rightarrow> nat" where
  "clear_items_start arr start =
     (if start < sort_array_get_size arr
      then (if position (arr ! start) \<noteq> start then start
            else clear_items_start arr (Suc start))
      else start)"
  by pat_completeness auto

function clear_items_end :: "'a sort_item list \<Rightarrow> nat \<Rightarrow> nat \<Rightarrow> nat" where
  "clear_items_end arr start e =
     (if e > start
      then (if position (arr ! (e - 1)) \<noteq> e - 1 then e
            else clear_items_end arr start (e - 1))
      else e)"
  by pat_completeness auto

text \<open>
  \<^verbatim>\<open>gtk_tim2_sort_model_clear_items\<close>. \<open>want\<close> says that \<^verbatim>\<open>pos\<close> or \<^verbatim>\<open>n_items\<close> is not
  \<^verbatim>\<open>NULL\<close>; the first two components of the result are what the call writes to them
  (nothing is written, and they are 0 here, when both are \<^verbatim>\<open>NULL\<close>).
\<close>

definition gtk_tim2_sort_model_clear_items ::
  "'a gtk_tim2_sort_model \<Rightarrow> bool \<Rightarrow> nat \<times> nat \<times> 'a gtk_tim2_sort_model" where
  "gtk_tim2_sort_model_clear_items self want =
     (let self = fst (gtk_tim2_sort_model_stop_sorting self False);
          (pos, n_items) =
            (if want then
               (let start = clear_items_start (items self) 0;
                    e = clear_items_end (items self) start
                          (guint (sort_array_get_size (items self)));
                    n_items = guint_sub e start
                in (if n_items = 0 then 0 else start, n_items))
             else (0, 0));
          (arr, rel) = sort_array_clear (items self) (released self)
      in (pos, n_items, self\<lparr>items := arr, released := rel\<rparr>))"

text \<open>
  The loop that appends one item for each index from \<open>i\<close> up to \<open>bound\<close>, in
  \<^verbatim>\<open>gtk_tim2_sort_model_create_items\<close> and in \<^verbatim>\<open>gtk_tim2_sort_model_items_changed_cb\<close>.
\<close>

function append_items_loop ::
  "'a g_list_model \<Rightarrow> nat \<Rightarrow> nat \<Rightarrow> 'a sort_item list \<Rightarrow> 'a sort_item list" where
  "append_items_loop m i bound arr =
     (if i < bound
      then append_items_loop m (Suc i) bound
             (sort_array_append arr \<lparr>item = g_list_model_get_item m i, position = i\<rparr>)
      else arr)"
  by pat_completeness auto

definition gtk_tim2_sort_model_create_items ::
  "'a gtk_tim2_sort_model \<Rightarrow> 'a gtk_tim2_sort_model" where
  "gtk_tim2_sort_model_create_items self =
     (if \<not> gtk_tim2_sort_model_should_sort self then self
      else
        (case model self of
           None \<Rightarrow> self
         | Some m \<Rightarrow>
             (let n_items = g_list_model_get_n_items m
              in self\<lparr>items := append_items_loop m 0 n_items (items self)\<rparr>)))"

function gtk_tim2_sort_model_update_items_loop ::
  "nat \<Rightarrow> nat \<Rightarrow> nat \<Rightarrow> nat \<Rightarrow> nat \<Rightarrow> 'a sort_item list \<Rightarrow> nat \<Rightarrow> nat \<Rightarrow> nat \<Rightarrow> 'a list
     \<Rightarrow> 'a sort_item list \<times> nat \<times> nat \<times> nat \<times> 'a list" where
  "gtk_tim2_sort_model_update_items_loop pos removed added n_items i arr valid start e rel =
     (if i < n_items then
        (let si = arr ! i in
         if position si \<ge> guint_add pos removed then
           (let arr = arr[i := si\<lparr>position := guint_add (guint_sub (position si) removed) added\<rparr>];
                arr = (if valid < i then arr[valid := arr ! i] else arr)
            in gtk_tim2_sort_model_update_items_loop pos removed added n_items (Suc i)
                 arr (Suc valid) start e rel)
         else if position si \<ge> pos then
           (let start = min start valid;
                e = guint_sub (guint_sub n_items i) 1;
                (si, rel) = sort_item_clear si rel;
                arr = arr[i := si]
            in gtk_tim2_sort_model_update_items_loop pos removed added n_items (Suc i)
                 arr valid start e rel)
         else
           (let arr = (if valid < i then arr[valid := arr ! i] else arr)
            in gtk_tim2_sort_model_update_items_loop pos removed added n_items (Suc i)
                 arr (Suc valid) start e rel))
      else (arr, valid, start, e, rel))"
  by pat_completeness auto

fun memset_items :: "'a sort_item list \<Rightarrow> nat \<Rightarrow> nat \<Rightarrow> 'a sort_item list" where
  "memset_items arr at 0 = arr"
| "memset_items arr at (Suc n) =
     memset_items (arr[at := \<lparr>item = None, position = 0\<rparr>]) (Suc at) n"

text \<open>
  \<^verbatim>\<open>gtk_tim2_sort_model_update_items\<close>. The result is the failed assertion, or the model
  with what the call leaves in \<^verbatim>\<open>runs\<close>, \<^verbatim>\<open>unmodified_start\<close> and \<^verbatim>\<open>unmodified_end\<close>.
\<close>

definition gtk_tim2_sort_model_update_items ::
  "'a gtk_tim2_sort_model \<Rightarrow> nat list \<Rightarrow> nat \<Rightarrow> nat \<Rightarrow> nat
     \<Rightarrow> error + ('a gtk_tim2_sort_model \<times> nat list \<times> nat \<times> nat)" where
  "gtk_tim2_sort_model_update_items self runs pos removed added =
     (let n_items = guint (sort_array_get_size (items self));
          (arr, valid, start, e, rel) =
             gtk_tim2_sort_model_update_items_loop pos removed added n_items 0
               (items self) 0 n_items n_items (released self);
          runs = runs[0 := 0]
      in if valid \<noteq> guint_sub n_items removed then Inl Assertion_failed
         else
           (let arr = memset_items arr valid removed;
                (arr, rel) = sort_array_set_size arr valid rel
            in Inr (self\<lparr>items := arr, released := rel\<rparr>, runs, start, e)))"

section \<open>Signal handlers and the public interface\<close>

text \<open>
  \<^verbatim>\<open>gtk_tim2_sort_model_items_changed_cb\<close>. The first argument is the emitting list
  model, which the handler does not use: it reads \<^verbatim>\<open>self->model\<close>.
\<close>

definition gtk_tim2_sort_model_items_changed_cb ::
  "'a g_list_model \<Rightarrow> nat \<Rightarrow> nat \<Rightarrow> nat \<Rightarrow> 'a gtk_tim2_sort_model
     \<Rightarrow> error + 'a gtk_tim2_sort_model" where
  "gtk_tim2_sort_model_items_changed_cb emitter pos removed added self =
     (if removed = 0 \<and> added = 0 then Inr self
      else if \<not> gtk_tim2_sort_model_should_sort self
      then Inr (g_list_model_items_changed self pos removed added)
      else
        (let was_sorting = gtk_tim2_sort_model_is_sorting self;
             (self, runs) = gtk_tim2_sort_model_stop_sorting self True
         in case gtk_tim2_sort_model_update_items self runs pos removed added of
              Inl err \<Rightarrow> Inl err
            | Inr (self, runs, start, e) \<Rightarrow>
                (case
                   (if added > 0 then
                      (let self = self\<lparr>items :=
                             (case model self of
                                None \<Rightarrow> items self
                              | Some m \<Rightarrow>
                                  append_items_loop m pos (guint_add pos added) (items self))\<rparr>;
                           e = 0
                       in case gtk_tim2_sort_model_start_sorting self (Some runs) of
                            Inl err \<Rightarrow> Inl err
                          | Inr (success, self) \<Rightarrow>
                              if \<not> success then
                                (let (p, n, self) = gtk_tim2_sort_model_finish_sorting self
                                 in Inr (self, min start p,
                                      guint (min e
                                        (gsize_sub
                                           (gsize_sub (sort_array_get_size (items self)) p) n))))
                              else Inr (self, start, e))
                    else if was_sorting then
                      (case gtk_tim2_sort_model_start_sorting self (Some runs) of
                         Inl err \<Rightarrow> Inl err
                       | Inr (success, self) \<Rightarrow> Inr (self, start, e))
                    else Inr (self, start, e))
                 of
                   Inl err \<Rightarrow> Inl err
                 | Inr (self, start, e) \<Rightarrow>
                     (let n_items =
                            guint (gsize_sub (gsize_sub (sort_array_get_size (items self)) start) e)
                      in Inr (g_list_model_items_changed self start
                                (guint_add (guint_sub n_items added) removed) n_items)))))"

datatype gtk_sorter_change =
  GTK_SORTER_CHANGE_DIFFERENT | GTK_SORTER_CHANGE_INVERTED
  | GTK_SORTER_CHANGE_LESS_STRICT | GTK_SORTER_CHANGE_MORE_STRICT

definition gtk_tim2_sort_model_sorter_changed_cb ::
  "'a gtk_sorter \<Rightarrow> gtk_sorter_change \<Rightarrow> 'a gtk_tim2_sort_model
     \<Rightarrow> error + 'a gtk_tim2_sort_model" where
  "gtk_tim2_sort_model_sorter_changed_cb srt change self =
     (case
        (if gtk_sorter_get_order srt = GTK_SORTER_ORDER_NONE
         then Inr (gtk_tim2_sort_model_clear_items self True)
         else
           (let self = (if sort_array_is_empty (items self)
                        then gtk_tim2_sort_model_create_items self else self);
                self = fst (gtk_tim2_sort_model_stop_sorting self False)
            in case gtk_tim2_sort_model_start_sorting self None of
                 Inl err \<Rightarrow> Inl err
               | Inr (started, self) \<Rightarrow>
                   if started then Inr (0, 0, self)
                   else Inr (gtk_tim2_sort_model_finish_sorting self)))
      of
        Inl err \<Rightarrow> Inl err
      | Inr (pos, n_items, self) \<Rightarrow>
          Inr (if n_items > 0 then g_list_model_items_changed self pos n_items n_items
               else self))"

definition gtk_tim2_sort_model_clear_model ::
  "'a gtk_tim2_sort_model \<Rightarrow> 'a gtk_tim2_sort_model" where
  "gtk_tim2_sort_model_clear_model self =
     (if model self = None then self
      else
        (let self = self\<lparr>model := None\<rparr>;
             (pos, n_items, self) = gtk_tim2_sort_model_clear_items self False
         in self))"

definition gtk_tim2_sort_model_clear_sorter ::
  "'a gtk_tim2_sort_model \<Rightarrow> 'a gtk_tim2_sort_model" where
  "gtk_tim2_sort_model_clear_sorter self =
     (if sorter self = None then self else self\<lparr>sorter := None\<rparr>)"

text \<open>\<^verbatim>\<open>gtk_tim2_sort_model_init\<close>: a new object is zero-filled.\<close>

definition gtk_tim2_sort_model_init :: "'a gtk_tim2_sort_model" where
  "gtk_tim2_sort_model_init =
     \<lparr>model = None, sorter = None, incremental = False,
      sort_ts = \<lparr>pending_runs = [], max_merge_size = 0, sort_data = None\<rparr>,
      sort_cb = 0, items = [], emitted = [], released = []\<rparr>"

text \<open>
  \<^verbatim>\<open>gtk_tim2_sort_model_set_model\<close>. The comparison of \<^verbatim>\<open>self->model\<close> with the new
  model is a comparison of pointers. The property notifications are not modelled.
\<close>

definition gtk_tim2_sort_model_set_model ::
  "'a gtk_tim2_sort_model \<Rightarrow> 'a g_list_model option \<Rightarrow> error + 'a gtk_tim2_sort_model" where
  "gtk_tim2_sort_model_set_model self new_model =
     (if map_option model_id (model self) = map_option model_id new_model then Inr self
      else
        (let removed = gtk_tim2_sort_model_get_n_items self;
             self = gtk_tim2_sort_model_clear_model self
         in case
              (case new_model of
                 Some m \<Rightarrow>
                   (let self = self\<lparr>model := Some m\<rparr>;
                        added = g_list_model_get_n_items m;
                        self = gtk_tim2_sort_model_create_items self
                    in case gtk_tim2_sort_model_start_sorting self None of
                         Inl err \<Rightarrow> Inl err
                       | Inr (started, self) \<Rightarrow>
                           if \<not> started
                           then (let (ignore1, ignore2, self) =
                                       gtk_tim2_sort_model_finish_sorting self
                                 in Inr (added, self))
                           else Inr (added, self))
               | None \<Rightarrow> Inr (0, self))
            of
              Inl err \<Rightarrow> Inl err
            | Inr (added, self) \<Rightarrow>
                Inr (if removed > 0 \<or> added > 0
                     then g_list_model_items_changed self 0 removed added else self)))"

definition gtk_tim2_sort_model_set_sorter ::
  "'a gtk_tim2_sort_model \<Rightarrow> 'a gtk_sorter option \<Rightarrow> error + 'a gtk_tim2_sort_model" where
  "gtk_tim2_sort_model_set_sorter self new_sorter =
     (let self = gtk_tim2_sort_model_clear_sorter self
      in case new_sorter of
           Some srt \<Rightarrow>
             (let self = self\<lparr>sorter := Some srt\<rparr>
              in gtk_tim2_sort_model_sorter_changed_cb srt GTK_SORTER_CHANGE_DIFFERENT self)
         | None \<Rightarrow>
             (let n_items = gtk_tim2_sort_model_get_n_items self
              in Inr (if n_items > 1 then g_list_model_items_changed self 0 n_items n_items
                      else self)))"

definition gtk_tim2_sort_model_set_incremental ::
  "'a gtk_tim2_sort_model \<Rightarrow> bool \<Rightarrow> 'a gtk_tim2_sort_model" where
  "gtk_tim2_sort_model_set_incremental self incr =
     (if incremental self = incr then self
      else
        (let self = self\<lparr>incremental := incr\<rparr>
         in if \<not> incr \<and> gtk_tim2_sort_model_is_sorting self then
              (let (pos, n_items, self) = gtk_tim2_sort_model_finish_sorting self
               in if n_items \<noteq> 0 then g_list_model_items_changed self pos n_items n_items
                  else self)
            else self))"

text \<open>
  \<^verbatim>\<open>gtk_tim2_sort_model_new\<close> constructs the object and sets the two properties, the model
  first.
\<close>

definition gtk_tim2_sort_model_new ::
  "'a g_list_model option \<Rightarrow> 'a gtk_sorter option \<Rightarrow> error + 'a gtk_tim2_sort_model" where
  "gtk_tim2_sort_model_new m srt =
     (case gtk_tim2_sort_model_set_model gtk_tim2_sort_model_init m of
        Inl err \<Rightarrow> Inl err
      | Inr self \<Rightarrow> gtk_tim2_sort_model_set_sorter self srt)"

text \<open>
  The collaborators are objects the model points to. When the list model changes its
  contents and emits \<^verbatim>\<open>items-changed\<close>, \<^verbatim>\<open>self->model\<close> is the changed object by the
  time the handler runs; likewise for the sorter and its \<^verbatim>\<open>changed\<close> signal.
\<close>

definition source_items_changed ::
  "'a g_list_model \<Rightarrow> nat \<Rightarrow> nat \<Rightarrow> nat \<Rightarrow> 'a gtk_tim2_sort_model
     \<Rightarrow> error + 'a gtk_tim2_sort_model" where
  "source_items_changed m pos removed added self =
     gtk_tim2_sort_model_items_changed_cb m pos removed added (self\<lparr>model := Some m\<rparr>)"

definition source_sorter_changed ::
  "'a gtk_sorter \<Rightarrow> gtk_sorter_change \<Rightarrow> 'a gtk_tim2_sort_model
     \<Rightarrow> error + 'a gtk_tim2_sort_model" where
  "source_sorter_changed srt change self =
     gtk_tim2_sort_model_sorter_changed_cb srt change (self\<lparr>sorter := Some srt\<rparr>)"

section \<open>Notions used in the statements\<close>

text \<open>
  The mutation translator in the words of the spec, to be compared with
  \<^verbatim>\<open>gtk_tim2_sort_model_update_items\<close>: the items whose position lies in the removal
  window are dropped, the items at or after its end have their position shifted by
  \<^verbatim>\<open>- removed + added\<close>, and the order of the items that remain is kept. The arithmetic
  is that of \<^verbatim>\<open>guint\<close>.
\<close>

definition spec_update_items :: "nat \<Rightarrow> nat \<Rightarrow> nat \<Rightarrow> 'a sort_item list \<Rightarrow> 'a sort_item list" where
  "spec_update_items pos removed added arr =
     map (\<lambda>si. if position si \<ge> guint_add pos removed
               then si\<lparr>position := guint_add (guint_sub (position si) removed) added\<rparr>
               else si)
       (filter (\<lambda>si. \<not> (pos \<le> position si \<and> position si < guint_add pos removed)) arr)"

definition spec_dropped_items :: "nat \<Rightarrow> nat \<Rightarrow> 'a sort_item list \<Rightarrow> 'a sort_item list" where
  "spec_dropped_items pos removed arr =
     filter (\<lambda>si. pos \<le> position si \<and> position si < guint_add pos removed) arr"

text \<open>The references held by a list of items, in order.\<close>

fun held_handles :: "'a sort_item list \<Rightarrow> 'a list" where
  "held_handles [] = []"
| "held_handles (si # sis) = (case item si of None \<Rightarrow> [] | Some h \<Rightarrow> [h]) @ held_handles sis"

text \<open>
  I1 of the spec: the buffer holds exactly one item for each element of the source, with
  the handle and the index the element has in the source. It is the buffer that
  \<^verbatim>\<open>gtk_tim2_sort_model_create_items\<close> builds, in any order.
\<close>

definition buffer_consistent :: "'a sort_item list \<Rightarrow> 'a g_list_model \<Rightarrow> bool" where
  "buffer_consistent arr m \<longleftrightarrow>
     mset arr = mset (map (\<lambda>i. \<lparr>item = g_list_model_get_item m i, position = i\<rparr>)
                       [0..<length (model_items m)])"

text \<open>The subtraction \<open>a - b\<close> of two \<^verbatim>\<open>guint\<close> wraps around when \<open>a\<close> is below \<open>b\<close>.\<close>

definition guint_sub_wraps :: "nat \<Rightarrow> nat \<Rightarrow> bool" where
  "guint_sub_wraps a b \<longleftrightarrow> a < b"

text \<open>
  The range of the changes an engine reports in one call of
  \<^verbatim>\<open>gtk_tim2_sort_model_sort_step\<close>, as the spec has it: from the least base to the
  greatest end of the changes that moved something, as (position, length), and the empty
  range at 0 when there is none. \<open>widen\<close> is one step of the widening in the code.
\<close>

definition widen :: "nat \<times> nat \<Rightarrow> gtk_tim_sort_run \<Rightarrow> nat \<times> nat" where
  "widen se c =
     (if run_len c \<noteq> 0
      then (min (fst se) (run_base c), max (snd se) (run_base c + run_len c))
      else se)"

definition changes_range :: "gtk_tim_sort_run list \<Rightarrow> nat \<times> nat" where
  "changes_range seen =
     (let moved = filter (\<lambda>c. run_len c \<noteq> 0) seen in
      if moved = [] then (0, 0)
      else (Min (set (map run_base moved)),
            Max (set (map (\<lambda>c. run_base c + run_len c) moved))
              - Min (set (map run_base moved))))"

text \<open>
  What the engine needs of the comparison to sort: that it is total and transitive. The
  runs the engine has found are sorted stretches of the array, the most recent last in
  the array; \<open>tim_sort_inv\<close> says so of an engine and the array it works on.
\<close>

definition le_lawful :: "('b \<Rightarrow> 'b \<Rightarrow> bool) \<Rightarrow> bool" where
  "le_lawful le \<longleftrightarrow> (\<forall>a b. \<not> le a b \<longrightarrow> le b a) \<and> (\<forall>a b c. le a b \<longrightarrow> le b c \<longrightarrow> le a c)"

fun runs_sorted :: "('b \<Rightarrow> 'b \<Rightarrow> bool) \<Rightarrow> nat list \<Rightarrow> 'b list \<Rightarrow> bool" where
  "runs_sorted le [] arr = True"
| "runs_sorted le (l # rs) arr =
     (sorted_wrt le (take l (drop (sum_list rs) arr)) \<and> runs_sorted le rs arr)"

definition tim_sort_inv :: "'a gtk_tim_sort \<Rightarrow> 'a sort_item list \<Rightarrow> bool" where
  "tim_sort_inv ts arr \<longleftrightarrow>
     sum_list (pending_runs ts) \<le> length arr
     \<and> runs_sorted (tim_sort_le ts) (pending_runs ts) arr"

text \<open>
  A sorter whose comparison is total and transitive; the buffer sorted as P1 of the spec
  has it, for adjacent items; and a model with an incremental sort in flight.
\<close>

definition sorter_lawful :: "'a gtk_sorter \<Rightarrow> bool" where
  "sorter_lawful srt \<longleftrightarrow>
     (\<forall>a b. sorter_compare srt a b = GTK_ORDERING_LARGER
            \<longrightarrow> sorter_compare srt b a \<noteq> GTK_ORDERING_LARGER)
     \<and> (\<forall>a b c. sorter_compare srt a b \<noteq> GTK_ORDERING_LARGER
            \<longrightarrow> sorter_compare srt b c \<noteq> GTK_ORDERING_LARGER
            \<longrightarrow> sorter_compare srt a c \<noteq> GTK_ORDERING_LARGER)"

definition buffer_sorted :: "'a gtk_tim2_sort_model \<Rightarrow> bool" where
  "buffer_sorted self \<longleftrightarrow>
     (\<forall>i. Suc i < length (items self)
          \<longrightarrow> sort_func (items self ! i) (items self ! Suc i) (sorter self)
                \<noteq> GTK_ORDERING_LARGER)"

definition sort_in_flight :: "'a gtk_tim2_sort_model \<Rightarrow> bool" where
  "sort_in_flight self \<longleftrightarrow>
     incremental self \<and> gtk_tim2_sort_model_is_sorting self
     \<and> sort_data (sort_ts self) = sorter self
     \<and> tim_sort_inv (sort_ts self) (items self)"

section \<open>A running example\<close>

text \<open>
  The first scenario of the spec: the source \<open>[5, 3, 1, 4, 2]\<close> and a sorter that compares
  numbers in ascending order (with \<^verbatim>\<open>NULL\<close> below every number, so that the comparison
  is total on all handles). \<open>view\<close> is what an observer reads from the model: \<^verbatim>\<open>get_item\<close>
  at every position below \<^verbatim>\<open>get_n_items\<close>.
\<close>

definition ascending_numeric :: "int gtk_sorter" where
  "ascending_numeric =
     \<lparr>sorter_compare =
        (\<lambda>a b. case a of
                 None \<Rightarrow> (case b of None \<Rightarrow> GTK_ORDERING_EQUAL | Some y \<Rightarrow> GTK_ORDERING_SMALLER)
               | Some x \<Rightarrow>
                   (case b of
                      None \<Rightarrow> GTK_ORDERING_LARGER
                    | Some y \<Rightarrow>
                        if x < y then GTK_ORDERING_SMALLER
                        else if x = y then GTK_ORDERING_EQUAL
                        else GTK_ORDERING_LARGER)),
      sorter_order = GTK_SORTER_ORDER_TOTAL\<rparr>"

definition example_source :: "int g_list_model" where
  "example_source = \<lparr>model_id = 1, model_items = [5, 3, 1, 4, 2]\<rparr>"

definition view :: "'a gtk_tim2_sort_model \<Rightarrow> 'a option list" where
  "view self =
     map (gtk_tim2_sort_model_get_item self) [0..<gtk_tim2_sort_model_get_n_items self]"

text \<open>
  The model in incremental mode, with the example source and sorter attached and a sort
  in flight that has found the runs \<open>runs\<close> (their lengths, the most recent first) and has
  merged nothing yet.
\<close>

definition example_in_flight :: "nat list \<Rightarrow> int gtk_tim2_sort_model" where
  "example_in_flight runs =
     \<lparr>model = Some example_source, sorter = Some ascending_numeric, incremental = True,
      sort_ts = \<lparr>pending_runs = runs, max_merge_size = 1024,
                 sort_data = Some ascending_numeric\<rparr>,
      sort_cb = 1,
      items = [\<lparr>item = Some 5, position = 0\<rparr>, \<lparr>item = Some 3, position = 1\<rparr>,
               \<lparr>item = Some 1, position = 2\<rparr>, \<lparr>item = Some 4, position = 3\<rparr>,
               \<lparr>item = Some 2, position = 4\<rparr>],
      emitted = [(0, 0, 5)], released = []\<rparr>"

text \<open>
  The model in synchronous mode, at rest: not incremental, no sort callback pending, a
  sorter that is total and transitive when there is one, and, whenever sorting applies,
  a buffer that is fully sorted.
\<close>

definition sync_sorted :: "'a gtk_tim2_sort_model \<Rightarrow> bool" where
  "sync_sorted self \<longleftrightarrow>
     \<not> incremental self \<and> sort_cb self = 0
     \<and> (\<forall>srt. sorter self = Some srt \<longrightarrow> sorter_lawful srt)
     \<and> (gtk_tim2_sort_model_should_sort self \<longrightarrow> buffer_sorted self)"

text \<open>
  The example in synchronous mode: the source, the buffer as pairs of a number and its
  position in the source, the notifications emitted and the references released so far.
\<close>

definition example_sync ::
  "int list \<Rightarrow> (int \<times> nat) list \<Rightarrow> (nat \<times> nat \<times> nat) list \<Rightarrow> int list
     \<Rightarrow> int gtk_tim2_sort_model" where
  "example_sync src buf em rel =
     \<lparr>model = Some \<lparr>model_id = 1, model_items = src\<rparr>, sorter = Some ascending_numeric,
      incremental = False,
      sort_ts = \<lparr>pending_runs = [], max_merge_size = 0, sort_data = Some ascending_numeric\<rparr>,
      sort_cb = 0,
      items = map (\<lambda>(h, p). \<lparr>item = Some h, position = p\<rparr>) buf,
      emitted = em, released = rel\<rparr>"

text \<open>
  The example sorter once it has stopped ordering anything: its \<^verbatim>\<open>get_order\<close> reports
  \<^verbatim>\<open>GTK_SORTER_ORDER_NONE\<close>.
\<close>

definition unordered :: "int gtk_sorter" where
  "unordered = ascending_numeric\<lparr>sorter_order := GTK_SORTER_ORDER_NONE\<rparr>"

text \<open>Calls in sequence: the next one runs on the model the previous one returned.\<close>

definition and_then :: "error + 'a \<Rightarrow> ('a \<Rightarrow> error + 'b) \<Rightarrow> error + 'b" where
  "and_then r f = (case r of Inl err \<Rightarrow> Inl err | Inr x \<Rightarrow> f x)"

text \<open>
  A run of the interface in synchronous mode: a model over the source \<open>[5, 3, 1]\<close> with the
  example sorter; the sorter is removed with \<^verbatim>\<open>gtk_tim2_sort_model_set_sorter (self, NULL)\<close>;
  the source appends \<open>4\<close> and signals \<open>(3, 0, 1)\<close>; the example sorter is set again.
\<close>

definition stale_buffer_run :: "error + int gtk_tim2_sort_model" where
  "stale_buffer_run =
     and_then (gtk_tim2_sort_model_new (Some \<lparr>model_id = 1, model_items = [5, 3, 1]\<rparr>)
                 (Some ascending_numeric))
       (\<lambda>self. and_then (gtk_tim2_sort_model_set_sorter self None)
       (\<lambda>self. and_then (source_items_changed \<lparr>model_id = 1, model_items = [5, 3, 1, 4]\<rparr>
                            3 0 1 self)
       (\<lambda>self. gtk_tim2_sort_model_set_sorter self (Some ascending_numeric))))"

section \<open>Termination of the loops\<close>

lemma length_merge_runs: "length (merge_runs le xs ys) = length xs + length ys"
  by (induction le xs ys rule: merge_runs.induct) auto

lemma length_merge_at: "length (merge_at le arr b n1 n2) = length arr"
  by (simp add: merge_at_def length_merge_runs)

lemma count_run_pos: "xs \<noteq> [] \<Longrightarrow> 0 < count_run le xs"
  by (induction le xs rule: count_run.induct) auto

lemma count_run_le: "count_run le xs \<le> length xs"
  by (induction le xs rule: count_run.induct) auto

text \<open>
  Every step of the engine that returns \<open>True\<close> makes progress: it covers more of the
  array with runs, or leaves fewer runs, or shortens the shorter of the two runs it
  merges.
\<close>

lemma tim_sort_step_decreases:
  assumes "gtk_tim_sort_step ts arr = (True, change, arr', ts')"
  shows "((ts', arr'), (ts, arr)) \<in> measures
           [\<lambda>(ts, arr). length arr - sum_list (pending_runs ts),
            \<lambda>(ts, arr). length (pending_runs ts),
            \<lambda>(ts, arr). (case pending_runs ts of l2 # l1 # rs \<Rightarrow> min l1 l2 | _ \<Rightarrow> 0)]"
proof (cases "sum_list (pending_runs ts) < length arr")
  case True
  then have "drop (sum_list (pending_runs ts)) arr \<noteq> []" by simp
  from count_run_pos[OF this, of "tim_sort_le ts"] True assms show ?thesis
    by (auto simp: gtk_tim_sort_step_def Let_def)
next
  case False
  with assms show ?thesis
    by (auto simp: gtk_tim_sort_step_def Let_def length_merge_at split: list.splits if_splits)
qed

termination gtk_tim2_sort_model_sort_step_loop
  apply (relation "inv_image (measures
           [\<lambda>(ts, arr). length arr - sum_list (pending_runs ts),
            \<lambda>(ts, arr). length (pending_runs ts),
            \<lambda>(ts, arr). (case pending_runs ts of l2 # l1 # rs \<Rightarrow> min l1 l2 | _ \<Rightarrow> 0)])
         (\<lambda>(finish, slice, ts, arr, rest). (ts, arr))")
   apply simp
  subgoal for finish slice ts arr result start_change end_change seen x stepped y change z arr' ts'
    using tim_sort_step_decreases[of ts arr change arr' ts'] by simp
  done

termination clear_items_start
  by (relation "measure (\<lambda>(arr, start). length arr - start)") (auto simp: sort_array_get_size_def)

termination clear_items_end
  by (relation "measure (\<lambda>(arr, start, e). e)") auto

termination append_items_loop
  by (relation "measure (\<lambda>(m, i, bound, arr). bound - i)") auto

termination gtk_tim2_sort_model_update_items_loop
  by (relation "measure (\<lambda>(pos, removed, added, n_items, i, rest). n_items - i)") auto

declare gtk_tim2_sort_model_sort_step_loop.simps [simp del]
declare clear_items_start.simps [simp del]
declare clear_items_end.simps [simp del]
declare append_items_loop.simps [simp del]
declare gtk_tim2_sort_model_update_items_loop.simps [simp del]

section \<open>The mutation translator\<close>

lemma spec_update_items_Cons:
  "spec_update_items pos removed added (si # arr) =
     (if position si \<ge> guint_add pos removed
      then si\<lparr>position := guint_add (guint_sub (position si) removed) added\<rparr>
             # spec_update_items pos removed added arr
      else if position si \<ge> pos then spec_update_items pos removed added arr
      else si # spec_update_items pos removed added arr)"
  by (auto simp: spec_update_items_def)

lemma spec_dropped_items_Cons:
  "spec_dropped_items pos removed (si # arr) =
     (if position si \<ge> guint_add pos removed then spec_dropped_items pos removed arr
      else if position si \<ge> pos then si # spec_dropped_items pos removed arr
      else spec_dropped_items pos removed arr)"
  by (auto simp: spec_dropped_items_def)

lemma spec_update_items_Nil [simp]: "spec_update_items pos removed added [] = []"
  by (simp add: spec_update_items_def)

lemma spec_dropped_items_Nil [simp]: "spec_dropped_items pos removed [] = []"
  by (simp add: spec_dropped_items_def)

lemma slice_step: "i < n \<Longrightarrow> n \<le> length arr \<Longrightarrow>
   take (n - i) (drop i arr) = arr ! i # take (n - Suc i) (drop (Suc i) arr)"
  by (metis Cons_nth_drop_Suc Suc_diff_Suc less_le_trans take_Suc_Cons)

lemma update_items_loop_spec:
  assumes "valid \<le> i" "i \<le> n" "n \<le> length arr"
  shows "case gtk_tim2_sort_model_update_items_loop pos removed added n i arr valid start e rel of
           (arr', valid', start', e', rel') \<Rightarrow>
             take valid' arr' = take valid arr @ spec_update_items pos removed added (take (n - i) (drop i arr))
             \<and> valid' = valid + length (spec_update_items pos removed added (take (n - i) (drop i arr)))
             \<and> rel' = rel @ held_handles (spec_dropped_items pos removed (take (n - i) (drop i arr)))
             \<and> length arr' = length arr
             \<and> drop n arr' = drop n arr"
  using assms
proof (induction pos removed added n i arr valid start e rel
       rule: gtk_tim2_sort_model_update_items_loop.induct)
  case (1 pos removed added n_items i arr valid start e rel)
  show ?case
  proof (cases "i < n_items")
    case False
    with 1(4-) show ?thesis
      by (simp add: gtk_tim2_sort_model_update_items_loop.simps)
  next
    case True
    note sl = slice_step[OF True "1.prems"(3)]
    have iarr: "i < length arr" using True "1.prems" by simp
    show ?thesis
    proof (cases "position (arr ! i) \<ge> guint_add pos removed")
      case A: True
      let ?si = "(arr ! i)\<lparr>position := guint_add (guint_sub (position (arr ! i)) removed) added\<rparr>"
      let ?arr1 = "arr[i := ?si]"
      let ?arr2 = "if valid < i then ?arr1[valid := ?arr1 ! i] else ?arr1"
      have len2: "length ?arr2 = length arr" by simp
      have tk: "take (Suc valid) ?arr2 = take valid arr @ [?si]"
        using "1.prems"(1) iarr
        by (auto simp: take_Suc_conv_app_nth)
      have dr: "drop (Suc i) ?arr2 = drop (Suc i) arr"
        using "1.prems"(1) by auto
      have drn: "drop n_items ?arr2 = drop n_items arr"
        using "1.prems"(1) True by auto
      from "1.IH"(1)[OF True refl A refl refl] "1.prems" True
      have IH: "case gtk_tim2_sort_model_update_items_loop pos removed added n_items (Suc i) ?arr2 (Suc valid) start e rel of
           (arr', valid', start', e', rel') \<Rightarrow>
             take valid' arr' = take (Suc valid) ?arr2 @ spec_update_items pos removed added (take (n_items - Suc i) (drop (Suc i) ?arr2))
             \<and> valid' = Suc valid + length (spec_update_items pos removed added (take (n_items - Suc i) (drop (Suc i) ?arr2)))
             \<and> rel' = rel @ held_handles (spec_dropped_items pos removed (take (n_items - Suc i) (drop (Suc i) ?arr2)))
             \<and> length arr' = length ?arr2
             \<and> drop n_items arr' = drop n_items ?arr2"
        by simp
      show ?thesis
        using IH True A unfolding dr tk drn len2
        by (subst gtk_tim2_sort_model_update_items_loop.simps)
           (simp add: sl spec_update_items_Cons spec_dropped_items_Cons Let_def split: prod.splits)
    next
      case nA: False
      show ?thesis
      proof (cases "position (arr ! i) \<ge> pos")
        case B: True
        let ?arr2 = "arr[i := fst (sort_item_clear (arr ! i) rel)]"
        let ?rel2 = "snd (sort_item_clear (arr ! i) rel)"
        have len2: "length ?arr2 = length arr" by simp
        have tk: "take valid ?arr2 = take valid arr"
          using "1.prems"(1) by auto
        have dr: "drop (Suc i) ?arr2 = drop (Suc i) arr"
          by auto
        have drn: "drop n_items ?arr2 = drop n_items arr"
          using True by auto
        have v: "valid \<le> Suc i" using "1.prems"(1) by simp
        from "1.IH"(2)[OF True refl nA B refl refl refl surjective_pairing[symmetric] refl] "1.prems" True
        have IH: "case gtk_tim2_sort_model_update_items_loop pos removed added n_items (Suc i) ?arr2 valid
                    (min start valid) (guint_sub (guint_sub n_items i) 1) ?rel2 of
           (arr', valid', start', e', rel') \<Rightarrow>
             take valid' arr' = take valid ?arr2 @ spec_update_items pos removed added (take (n_items - Suc i) (drop (Suc i) ?arr2))
             \<and> valid' = valid + length (spec_update_items pos removed added (take (n_items - Suc i) (drop (Suc i) ?arr2)))
             \<and> rel' = ?rel2 @ held_handles (spec_dropped_items pos removed (take (n_items - Suc i) (drop (Suc i) ?arr2)))
             \<and> length arr' = length ?arr2
             \<and> drop n_items arr' = drop n_items ?arr2"
          by simp
        have rel2: "?rel2 = rel @ held_handles [arr ! i]"
          by (simp add: sort_item_clear_def)
        show ?thesis
          using IH True nA B unfolding dr tk drn len2 rel2
          by (subst gtk_tim2_sort_model_update_items_loop.simps)
             (simp add: sl spec_update_items_Cons spec_dropped_items_Cons Let_def
                sort_item_clear_def split: prod.splits)
      next
        case nB: False
        let ?arr2 = "if valid < i then arr[valid := arr ! i] else arr"
        have len2: "length ?arr2 = length arr" by simp
        have tk: "take (Suc valid) ?arr2 = take valid arr @ [arr ! i]"
          using "1.prems"(1) iarr
          by (auto simp: take_Suc_conv_app_nth)
        have dr: "drop (Suc i) ?arr2 = drop (Suc i) arr"
          using "1.prems"(1) by auto
        have drn: "drop n_items ?arr2 = drop n_items arr"
          using "1.prems"(1) True by auto
        from "1.IH"(3)[OF True refl nA nB refl] "1.prems" True
        have IH: "case gtk_tim2_sort_model_update_items_loop pos removed added n_items (Suc i) ?arr2 (Suc valid) start e rel of
           (arr', valid', start', e', rel') \<Rightarrow>
             take valid' arr' = take (Suc valid) ?arr2 @ spec_update_items pos removed added (take (n_items - Suc i) (drop (Suc i) ?arr2))
             \<and> valid' = Suc valid + length (spec_update_items pos removed added (take (n_items - Suc i) (drop (Suc i) ?arr2)))
             \<and> rel' = rel @ held_handles (spec_dropped_items pos removed (take (n_items - Suc i) (drop (Suc i) ?arr2)))
             \<and> length arr' = length ?arr2
             \<and> drop n_items arr' = drop n_items ?arr2"
          by simp
        show ?thesis
          using IH True nA nB unfolding dr tk drn len2
          by (subst gtk_tim2_sort_model_update_items_loop.simps)
             (simp add: sl spec_update_items_Cons spec_dropped_items_Cons Let_def split: prod.splits)
      qed
    qed
  qed
qed

lemma free_items_held: "sort_array_free_items sis rel = rel @ held_handles sis"
  by (induction sis arbitrary: rel) (auto simp: sort_item_clear_def)

lemma held_handles_replicate_zero [simp]:
  "held_handles (replicate k \<lparr>item = None, position = 0\<rparr>) = []"
  by (induction k) auto

lemma memset_items_eq:
  "memset_items arr at k =
     take at arr @ replicate (min k (length arr - at)) \<lparr>item = None, position = 0\<rparr>
       @ drop (at + k) arr"
proof (induction k arbitrary: arr at)
  case 0
  then show ?case by simp
next
  case (Suc k)
  show ?case
  proof (cases "at < length arr")
    case True
    then have "min (Suc k) (length arr - at) = Suc (min k (length arr - Suc at))" by auto
    with True show ?thesis
      by (simp add: Suc.IH take_Suc_conv_app_nth del: replicate_Suc)
         (simp add: replicate_app_Cons_same)
  next
    case False
    then show ?thesis by (simp add: Suc.IH list_update_beyond)
  qed
qed


lemma wrap_sub_exact:
  fixes M :: nat
  assumes "b \<le> a" "a < M"
  shows "(a + (M - b mod M)) mod M = a - b"
proof -
  have "b mod M = b" using assms by simp
  moreover have "a + (M - b) = (a - b) + M" using assms by simp
  moreover have "((a - b) + M) mod M = (a - b) mod M" by (rule mod_add_self2)
  moreover have "(a - b) mod M = a - b" by (rule mod_less) (use assms in arith)
  ultimately show ?thesis by presburger
qed

lemma wrap_sub_le_imp:
  fixes M :: nat
  assumes "0 < M" "n < M" "valid \<le> n" "valid = (n + (M - removed mod M)) mod M"
  shows "valid + removed mod M = n"
proof -
  define r where "r = removed mod M"
  have r: "r < M" using assms(1) by (simp add: r_def)
  have v: "valid = (n + (M - r)) mod M"
    using assms(4) by (simp add: r_def)
  show ?thesis
  proof (cases "r \<le> n")
    case True
    then have "n + (M - r) = (n - r) + M" using r by simp
    moreover have "((n - r) + M) mod M = (n - r) mod M" by (rule mod_add_self2)
    moreover have "(n - r) mod M = n - r" by (rule mod_less) (use assms(2) in arith)
    ultimately have "valid = n - r"
      using v by presburger
    with True show ?thesis by (simp add: r_def)
  next
    case False
    then have lt: "n + (M - r) < M" using r by simp
    then have "valid = n + (M - r)"
      using v by simp
    with assms(3) False r show ?thesis by simp
  qed
qed

lemma guint_sub_exact: "b \<le> a \<Longrightarrow> a < 2 ^ 32 \<Longrightarrow> guint_sub a b = a - b"
  unfolding guint_sub_def by (rule wrap_sub_exact)

lemma gsize_sub_exact: "b \<le> a \<Longrightarrow> a < 2 ^ 64 \<Longrightarrow> gsize_sub a b = a - b"
  unfolding gsize_sub_def by (rule wrap_sub_exact)

lemma guint_add_exact: "a + b < 2 ^ 32 \<Longrightarrow> guint_add a b = a + b"
  by (simp add: guint_add_def)

lemma guint_exact: "a < 2 ^ 32 \<Longrightarrow> guint a = a"
  by (simp add: guint_def)

lemma guint_sub_le_imp:
  assumes "n < 2 ^ 32" "valid \<le> n" "valid = guint_sub n removed"
  shows "valid + removed mod 2 ^ 32 = n"
  using wrap_sub_le_imp[of "2 ^ 32" n valid removed] assms
  unfolding guint_sub_def by simp


lemma update_items_result:
  assumes len: "length (items self) < 2 ^ 32"
    and ok: "gtk_tim2_sort_model_update_items self runs pos removed added = Inr (self', runs', start, e)"
  shows "self' = self\<lparr>items := spec_update_items pos removed added (items self),
                      released := released self
                        @ held_handles (spec_dropped_items pos removed (items self))\<rparr>
         \<and> runs' = runs[0 := 0]
         \<and> length (spec_update_items pos removed added (items self)) + removed mod 2 ^ 32
             = length (items self)"
proof -
  let ?n = "length (items self)"
  obtain arr' valid' st' e' rel' where
    loop: "gtk_tim2_sort_model_update_items_loop pos removed added ?n 0 (items self) 0 ?n ?n
             (released self) = (arr', valid', st', e', rel')"
    by (metis prod_cases5)
  from update_items_loop_spec[where valid = 0 and i = 0 and n = ?n and arr = "items self"
      and pos = pos and removed = removed and added = added and start = ?n and e = ?n
      and rel = "released self"] loop
  have tk: "take valid' arr' = spec_update_items pos removed added (items self)"
   and v: "valid' = length (spec_update_items pos removed added (items self))"
   and rel: "rel' = released self @ held_handles (spec_dropped_items pos removed (items self))"
   and la: "length arr' = ?n"
    by auto
  have "length (take valid' arr') = valid'" using tk v by simp
  then have vle: "valid' \<le> ?n" using la by simp
  have n: "guint (sort_array_get_size (items self)) = ?n"
    using len by (simp add: guint_def sort_array_get_size_def)
  from ok have asrt: "valid' = guint_sub ?n removed"
    by (auto simp: gtk_tim2_sort_model_update_items_def n loop Let_def split: if_splits)
  from guint_sub_le_imp[OF len vle asrt] have sum: "valid' + removed mod 2 ^ 32 = ?n" .
  have "removed mod 2 ^ 32 \<le> removed" by simp
  with sum have ge: "?n \<le> valid' + removed" by linarith
  have ms: "memset_items arr' valid' removed
        = take valid' arr' @ replicate (?n - valid') \<lparr>item = None, position = 0\<rparr>"
  proof -
    have "min removed (length arr' - valid') = ?n - valid'" using ge la by linarith
    then show ?thesis using ge la by (simp add: memset_items_eq)
  qed
  have ss: "sort_array_set_size (memset_items arr' valid' removed) valid' rel'
        = (take valid' arr', rel')"
    using vle la by (simp add: ms sort_array_set_size_def free_items_held)
  from ok have "self' = self\<lparr>items := take valid' arr', released := rel'\<rparr> \<and> runs' = runs[0 := 0]"
    by (simp add: gtk_tim2_sort_model_update_items_def n loop Let_def asrt[symmetric] ss)
  then show ?thesis
    using sum by (simp add: tk rel v[symmetric])
qed

text \<open>
  C2. When \<^verbatim>\<open>gtk_tim2_sort_model_update_items\<close> returns, the buffer is the old buffer
  without the items whose position lies in \<^verbatim>\<open>[position, position + removed)\<close>, in the
  same order, with the position of every item at or after \<^verbatim>\<open>position + removed\<close> replaced
  by \<^verbatim>\<open>position - removed + added\<close>; the references released are those of the dropped
  items.
\<close>

theorem update_items_translates:
  assumes "length (items self) < 2 ^ 32"
    and "gtk_tim2_sort_model_update_items self runs pos removed added
           = Inr (self', runs', start, e)"
  shows "items self' = spec_update_items pos removed added (items self)
         \<and> released self'
             = released self @ held_handles (spec_dropped_items pos removed (items self))"
  using update_items_result[OF assms] by simp

theorem update_items_translates_witness:
  "length (items (gtk_tim2_sort_model_init\<lparr>
        model := Some \<lparr>model_id = 1, model_items = [5, 3, 4, 2 :: int]\<rparr>,
        items := [\<lparr>item = Some 1, position = 2\<rparr>, \<lparr>item = Some 2, position = 4\<rparr>,
                  \<lparr>item = Some 3, position = 1\<rparr>, \<lparr>item = Some 4, position = 3\<rparr>,
                  \<lparr>item = Some 5, position = 0\<rparr>]\<rparr>)) < 2 ^ 32
   \<and> gtk_tim2_sort_model_update_items
        (gtk_tim2_sort_model_init\<lparr>
          model := Some \<lparr>model_id = 1, model_items = [5, 3, 4, 2 :: int]\<rparr>,
          items := [\<lparr>item = Some 1, position = 2\<rparr>, \<lparr>item = Some 2, position = 4\<rparr>,
                    \<lparr>item = Some 3, position = 1\<rparr>, \<lparr>item = Some 4, position = 3\<rparr>,
                    \<lparr>item = Some 5, position = 0\<rparr>]\<rparr>) [5, 0] 2 1 0
      = Inr (gtk_tim2_sort_model_init\<lparr>
          model := Some \<lparr>model_id = 1, model_items = [5, 3, 4, 2 :: int]\<rparr>,
          items := [\<lparr>item = Some 2, position = 3\<rparr>, \<lparr>item = Some 3, position = 1\<rparr>,
                    \<lparr>item = Some 4, position = 2\<rparr>, \<lparr>item = Some 5, position = 0\<rparr>],
          released := [1]\<rparr>, [0, 0], 0, 4)
   \<and> spec_update_items 2 1 0
        [\<lparr>item = Some (1 :: int), position = 2\<rparr>, \<lparr>item = Some 2, position = 4\<rparr>,
         \<lparr>item = Some 3, position = 1\<rparr>, \<lparr>item = Some 4, position = 3\<rparr>,
         \<lparr>item = Some 5, position = 0\<rparr>]
      = [\<lparr>item = Some 2, position = 3\<rparr>, \<lparr>item = Some 3, position = 1\<rparr>,
         \<lparr>item = Some 4, position = 2\<rparr>, \<lparr>item = Some 5, position = 0\<rparr>]
   \<and> held_handles (spec_dropped_items 2 1
        [\<lparr>item = Some (1 :: int), position = 2\<rparr>, \<lparr>item = Some 2, position = 4\<rparr>,
         \<lparr>item = Some 3, position = 1\<rparr>, \<lparr>item = Some 4, position = 3\<rparr>,
         \<lparr>item = Some 5, position = 0\<rparr>]) = [1]"
proof -
  let ?self = "gtk_tim2_sort_model_init\<lparr>
        model := Some \<lparr>model_id = 1, model_items = [5, 3, 4, 2 :: int]\<rparr>,
        items := [\<lparr>item = Some 1, position = 2\<rparr>, \<lparr>item = Some 2, position = 4\<rparr>,
                  \<lparr>item = Some 3, position = 1\<rparr>, \<lparr>item = Some 4, position = 3\<rparr>,
                  \<lparr>item = Some 5, position = 0\<rparr>]\<rparr>"
  let ?self' = "gtk_tim2_sort_model_init\<lparr>
          model := Some \<lparr>model_id = 1, model_items = [5, 3, 4, 2 :: int]\<rparr>,
          items := [\<lparr>item = Some 2, position = 3\<rparr>, \<lparr>item = Some 3, position = 1\<rparr>,
                    \<lparr>item = Some 4, position = 2\<rparr>, \<lparr>item = Some 5, position = 0\<rparr>],
          released := [1]\<rparr>"
  have h1: "length (items ?self) < 2 ^ 32" by simp
  have h2: "gtk_tim2_sort_model_update_items ?self [5, 0] 2 1 0 = Inr (?self', [0, 0], 0, 4)"
    by (simp add: gtk_tim2_sort_model_init_def gtk_tim2_sort_model_update_items_def Let_def
      gtk_tim2_sort_model_update_items_loop.simps guint_def guint_add_def guint_sub_def
      sort_array_get_size_def sort_item_clear_def sort_array_set_size_def)
  from update_items_translates[OF h1 h2] h1 h2 show ?thesis
    by (simp add: gtk_tim2_sort_model_init_def)
qed

lemma length_filter_outside_window:
  assumes "pos + removed \<le> n"
  shows "length (filter (\<lambda>i. \<not> (pos \<le> i \<and> i < pos + removed)) [0..<n]) = n - removed"
proof -
  have "{i. i < n \<and> \<not> (pos \<le> i \<and> i < pos + removed)} = {..<n} - {pos..<pos + removed}"
    by auto
  moreover have "card ({..<n} - {pos..<pos + removed}) = n - removed"
    using assms by (subst card_Diff_subset) auto
  ultimately show ?thesis
    by (simp add: length_filter_conv_card cong: conj_cong)
qed

lemma consistent_length: "buffer_consistent arr m \<Longrightarrow> length arr = length (model_items m)"
proof -
  assume "buffer_consistent arr m"
  then have "size (mset arr) = size (mset (map (\<lambda>i. \<lparr>item = g_list_model_get_item m i, position = i\<rparr>)
                       [0..<length (model_items m)]))"
    unfolding buffer_consistent_def by (rule arg_cong)
  then show ?thesis by simp
qed

lemma consistent_positions:
  "buffer_consistent arr m \<Longrightarrow> si \<in> set arr \<Longrightarrow> position si < length (model_items m)"
proof -
  assume c: "buffer_consistent arr m" and "si \<in> set arr"
  then have "si \<in> set (map (\<lambda>i. \<lparr>item = g_list_model_get_item m i, position = i\<rparr>)
                       [0..<length (model_items m)])"
    unfolding buffer_consistent_def by (rule mset_eq_setD[THEN equalityD1, THEN subsetD])
  then show ?thesis by auto
qed

lemma consistent_kept_length:
  assumes c: "buffer_consistent arr m" and w: "pos + removed \<le> length (model_items m)"
    and n: "length (model_items m) < 2 ^ 32"
  shows "length (spec_update_items pos removed added arr) = length arr - removed"
proof -
  let ?f = "\<lambda>i. \<lparr>item = g_list_model_get_item m i, position = i\<rparr>"
  let ?P = "\<lambda>si :: 'a sort_item. \<not> (pos \<le> position si \<and> position si < guint_add pos removed)"
  let ?n = "length (model_items m)"
  have ga: "guint_add pos removed = pos + removed" using w n by (simp add: guint_add_exact)
  have "length (filter ?P arr) = size (filter_mset ?P (mset arr))"
    by (simp only: mset_filter[symmetric] size_mset)
  also have "\<dots> = size (filter_mset ?P (mset (map ?f [0..<?n])))"
    using c by (simp add: buffer_consistent_def)
  also have "\<dots> = length (filter ?P (map ?f [0..<?n]))"
    by (simp only: mset_filter[symmetric] size_mset)
  also have "\<dots> = length (filter (\<lambda>i. \<not> (pos \<le> i \<and> i < pos + removed)) [0..<?n])"
    by (simp add: filter_map o_def ga)
  also have "\<dots> = ?n - removed" by (rule length_filter_outside_window[OF w])
  finally show ?thesis by (simp add: spec_update_items_def consistent_length[OF c])
qed


lemma update_items_succeeds:
  assumes len: "length (items self) < 2 ^ 32"
    and v: "length (spec_update_items pos removed added (items self))
              = guint_sub (length (items self)) removed"
  shows "\<exists>self' start e.
           gtk_tim2_sort_model_update_items self runs pos removed added
             = Inr (self', runs[0 := 0], start, e)"
proof -
  let ?n = "length (items self)"
  obtain arr' valid' st' e' rel' where
    loop: "gtk_tim2_sort_model_update_items_loop pos removed added ?n 0 (items self) 0 ?n ?n
             (released self) = (arr', valid', st', e', rel')"
    by (metis prod_cases5)
  from update_items_loop_spec[where valid = 0 and i = 0 and n = ?n and arr = "items self"
      and pos = pos and removed = removed and added = added and start = ?n and e = ?n
      and rel = "released self"] loop
  have "valid' = length (spec_update_items pos removed added (items self))"
    by auto
  with v have asrt: "valid' = guint_sub ?n removed" by simp
  have n: "guint (sort_array_get_size (items self)) = ?n"
    using len by (simp add: guint_def sort_array_get_size_def)
  show ?thesis
    by (simp add: gtk_tim2_sort_model_update_items_def n loop Let_def asrt[symmetric]
          split: prod.split)
qed

text \<open>
  C9. When the buffer satisfies I1 for the source as it was before the edit and the
  removal window lies within that source, the pass drops exactly \<^verbatim>\<open>removed\<close> items: the
  assertion \<^verbatim>\<open>valid == n_items - removed\<close> holds, so that the call returns, with a buffer
  shorter by \<^verbatim>\<open>removed\<close>; and none of the subtractions of the routine wraps around:
  \<^verbatim>\<open>n_items - removed\<close>, \<^verbatim>\<open>si->position - removed\<close> for the items that are shifted, and
  \<^verbatim>\<open>n_items - i - 1\<close> for the indexes of the loop.
\<close>

theorem update_items_assertion_holds:
  assumes c: "buffer_consistent (items self) m"
    and n: "length (model_items m) < 2 ^ 32"
    and w: "pos + removed \<le> length (model_items m)"
  shows "(\<exists>self' start e.
            gtk_tim2_sort_model_update_items self runs pos removed added
              = Inr (self', runs[0 := 0], start, e)
            \<and> length (items self') = length (items self) - removed)
         \<and> \<not> guint_sub_wraps (guint (sort_array_get_size (items self))) removed
         \<and> (\<forall>si \<in> set (items self). guint_add pos removed \<le> position si
               \<longrightarrow> \<not> guint_sub_wraps (position si) removed)
         \<and> (\<forall>i < guint (sort_array_get_size (items self)).
               \<not> guint_sub_wraps (guint (sort_array_get_size (items self))) i
               \<and> \<not> guint_sub_wraps (guint_sub (guint (sort_array_get_size (items self))) i) 1)"
proof -
  let ?n = "length (items self)"
  have ln: "?n = length (model_items m)" by (rule consistent_length[OF c])
  have len: "?n < 2 ^ 32" using n ln by simp
  have gn: "guint (sort_array_get_size (items self)) = ?n"
    using len by (simp add: guint_def sort_array_get_size_def)
  have rn: "removed \<le> ?n" using w ln by simp
  have kept: "length (spec_update_items pos removed added (items self)) = ?n - removed"
    by (rule consistent_kept_length[OF c w n])
  have "guint_sub ?n removed = ?n - removed" by (rule guint_sub_exact[OF rn len])
  with kept have v: "length (spec_update_items pos removed added (items self))
              = guint_sub ?n removed" by simp
  from update_items_succeeds[OF len v, of runs] obtain self' start e where
    ok: "gtk_tim2_sort_model_update_items self runs pos removed added
              = Inr (self', runs[0 := 0], start, e)" by blast
  from update_items_result[OF len ok] kept
  have "length (items self') = ?n - removed" by simp
  with ok have 1: "\<exists>self' start e.
            gtk_tim2_sort_model_update_items self runs pos removed added
              = Inr (self', runs[0 := 0], start, e)
            \<and> length (items self') = length (items self) - removed" by blast
  have 2: "\<not> guint_sub_wraps (guint (sort_array_get_size (items self))) removed"
    using rn by (simp add: gn guint_sub_wraps_def)
  have ga: "guint_add pos removed = pos + removed" using w n by (simp add: guint_add_exact)
  have 3: "\<forall>si \<in> set (items self). guint_add pos removed \<le> position si
               \<longrightarrow> \<not> guint_sub_wraps (position si) removed"
    by (simp add: ga guint_sub_wraps_def)
  have 4: "\<forall>i < guint (sort_array_get_size (items self)).
               \<not> guint_sub_wraps (guint (sort_array_get_size (items self))) i
               \<and> \<not> guint_sub_wraps (guint_sub (guint (sort_array_get_size (items self))) i) 1"
  proof (intro allI impI)
    fix i assume "i < guint (sort_array_get_size (items self))"
    then have i: "i < ?n" by (simp add: gn)
    then have "guint_sub ?n i = ?n - i" using len by (simp add: guint_sub_exact)
    with i show "\<not> guint_sub_wraps (guint (sort_array_get_size (items self))) i
               \<and> \<not> guint_sub_wraps (guint_sub (guint (sort_array_get_size (items self))) i) 1"
      by (simp add: gn guint_sub_wraps_def)
  qed
  from 1 2 3 4 show ?thesis by blast
qed

theorem update_items_assertion_holds_witness:
  "buffer_consistent
      [\<lparr>item = Some (1 :: int), position = 2\<rparr>, \<lparr>item = Some 2, position = 4\<rparr>,
       \<lparr>item = Some 3, position = 1\<rparr>, \<lparr>item = Some 4, position = 3\<rparr>,
       \<lparr>item = Some 5, position = 0\<rparr>]
      \<lparr>model_id = 1, model_items = [5, 3, 1, 4, 2]\<rparr>
   \<and> length [5, 3, 1, 4, 2 :: int] < 2 ^ 32
   \<and> 2 + 1 \<le> length [5, 3, 1, 4, 2 :: int]
   \<and> (\<exists>self' start e.
        gtk_tim2_sort_model_update_items
          (gtk_tim2_sort_model_init\<lparr>
            model := Some \<lparr>model_id = 1, model_items = [5, 3, 4, 2 :: int]\<rparr>,
            items := [\<lparr>item = Some 1, position = 2\<rparr>, \<lparr>item = Some 2, position = 4\<rparr>,
                      \<lparr>item = Some 3, position = 1\<rparr>, \<lparr>item = Some 4, position = 3\<rparr>,
                      \<lparr>item = Some 5, position = 0\<rparr>]\<rparr>) [5, 0] 2 1 0
          = Inr (self', [0, 0], start, e)
        \<and> length (items self') = 4)
   \<and> \<not> guint_sub_wraps 5 1
   \<and> \<not> guint_sub_wraps 4 1"
proof -
  let ?arr = "[\<lparr>item = Some (1 :: int), position = 2\<rparr>, \<lparr>item = Some 2, position = 4\<rparr>,
       \<lparr>item = Some 3, position = 1\<rparr>, \<lparr>item = Some 4, position = 3\<rparr>,
       \<lparr>item = Some 5, position = 0\<rparr>]"
  let ?self = "gtk_tim2_sort_model_init\<lparr>
            model := Some \<lparr>model_id = 1, model_items = [5, 3, 4, 2 :: int]\<rparr>,
            items := ?arr\<rparr>"
  let ?m = "\<lparr>model_id = 1, model_items = [5, 3, 1, 4, 2 :: int]\<rparr>"
  have u: "[0..<5] = [0, 1, 2, 3, 4 :: nat]" by (simp add: upt_rec)
  have c: "buffer_consistent (items ?self) ?m"
    by (simp add: buffer_consistent_def g_list_model_get_item_def upt_rec eval_nat_numeral)
  have n: "length (model_items ?m) < 2 ^ 32" by simp
  have w: "2 + 1 \<le> length (model_items ?m)" by simp
  from update_items_assertion_holds[OF c n w, of "[5, 0]" 0] c n w show ?thesis
    by (auto simp add: guint_def guint_add_def sort_array_get_size_def)
qed

section \<open>Stepping the engine\<close>

lemma foldl_widen_props:
  assumes "foldl widen (s, e) new = (s', e')"
  shows "s' \<le> s \<and> e \<le> e'
         \<and> (\<forall>c \<in> set new. run_len c \<noteq> 0 \<longrightarrow> s' \<le> run_base c \<and> run_base c + run_len c \<le> e')
         \<and> (s' = s \<or> (\<exists>c \<in> set new. run_len c \<noteq> 0 \<and> run_base c = s'))
         \<and> (e' = e \<or> (\<exists>c \<in> set new. run_len c \<noteq> 0 \<and> run_base c + run_len c = e'))"
  using assms
proof (induction new arbitrary: s e)
  case Nil
  then show ?case by simp
next
  case (Cons c cs)
  show ?case
  proof (cases "run_len c \<noteq> 0")
    case True
    then have w: "widen (s, e) c = (min s (run_base c), max e (run_base c + run_len c))"
      by (simp add: widen_def)
    from Cons.prems have "foldl widen (min s (run_base c), max e (run_base c + run_len c)) cs = (s', e')"
      by (simp only: foldl_Cons w)
    from Cons.IH[OF this] True show ?thesis
      by (auto simp: min_def max_def split: if_splits)
  next
    case False
    then have w: "widen (s, e) c = (s, e)"
      by (simp add: widen_def)
    from Cons.prems have "foldl widen (s, e) cs = (s', e')"
      by (simp only: foldl_Cons w)
    from Cons.IH[OF this] False show ?thesis by auto
  qed
qed

lemma foldl_widen_range:
  assumes f: "foldl widen (sz, 0) new = (s', e')"
    and b: "\<forall>c \<in> set new. run_len c \<noteq> 0 \<longrightarrow> run_base c + run_len c \<le> sz"
  shows "(if s' < e' then (s', e' - s') else (0, 0)) = changes_range new"
proof (cases "filter (\<lambda>c. run_len c \<noteq> 0) new = []")
  case True
  then have "\<forall>c \<in> set new. run_len c = 0" by (auto simp: filter_empty_conv)
  with foldl_widen_props[OF f] have "s' = sz" "e' = 0" by auto
  with True show ?thesis by (simp add: changes_range_def)
next
  case False
  let ?moved = "filter (\<lambda>c. run_len c \<noteq> 0) new"
  from False obtain c0 where c0: "c0 \<in> set new" "run_len c0 \<noteq> 0"
    by (auto simp: filter_empty_conv)
  from foldl_widen_props[OF f]
  have lo: "\<forall>c \<in> set new. run_len c \<noteq> 0 \<longrightarrow> s' \<le> run_base c \<and> run_base c + run_len c \<le> e'"
    and s: "s' = sz \<or> (\<exists>c \<in> set new. run_len c \<noteq> 0 \<and> run_base c = s')"
    and e: "e' = 0 \<or> (\<exists>c \<in> set new. run_len c \<noteq> 0 \<and> run_base c + run_len c = e')"
    by auto
  from lo c0 b have lt: "s' < e'" "s' < sz" "0 < e'" by fastforce+
  with s have sa: "\<exists>c \<in> set new. run_len c \<noteq> 0 \<and> run_base c = s'" by simp
  from lt e have ea: "\<exists>c \<in> set new. run_len c \<noteq> 0 \<and> run_base c + run_len c = e'" by simp
  have "Min (set (map run_base ?moved)) = s'"
    using sa lo by (intro Min_eqI) auto
  moreover have "Max (set (map (\<lambda>c. run_base c + run_len c) ?moved)) = e'"
    using ea lo by (intro Max_eqI) auto
  ultimately show ?thesis using False lt by (simp add: changes_range_def Let_def)
qed


lemma merge_at_nth_outside:
  assumes "b + n1 + n2 \<le> length arr" "i < b \<or> b + n1 + n2 \<le> i"
  shows "merge_at le arr b n1 n2 ! i = arr ! i"
proof -
  let ?M = "merge_runs le (take n1 (drop b arr)) (take n2 (drop (b + n1) arr))"
  have lm: "length ?M = n1 + n2" using assms(1) by (simp add: length_merge_runs)
  from assms(2) show ?thesis
  proof
    assume "i < b"
    then show ?thesis using assms(1) by (simp add: merge_at_def nth_append)
  next
    assume ge: "b + n1 + n2 \<le> i"
    have lp: "length (take b arr @ ?M) = b + n1 + n2" using assms(1) lm by simp
    have "merge_at le arr b n1 n2 = (take b arr @ ?M) @ drop (b + n1 + n2) arr"
      by (simp add: merge_at_def)
    moreover have "i = length (take b arr @ ?M) + (i - (b + n1 + n2))"
      using ge lp by simp
    ultimately have "merge_at le arr b n1 n2 ! i = drop (b + n1 + n2) arr ! (i - (b + n1 + n2))"
      by (metis nth_append_length_plus)
    also have "\<dots> = arr ! i" using ge assms(1) by simp
    finally show ?thesis .
  qed
qed

lemma mset_merge_runs: "mset (merge_runs le xs ys) = mset xs + mset ys"
  by (induction le xs ys rule: merge_runs.induct) auto

lemma mset_merge_at: "mset (merge_at le arr b n1 n2) = mset arr"
proof -
  have "arr = take b arr @ take n1 (drop b arr) @ take n2 (drop (b + n1) arr)
              @ drop (b + n1 + n2) arr"
    by (metis add.commute append_take_drop_id drop_drop)
  then have "mset arr = mset (take b arr) + mset (take n1 (drop b arr))
              + mset (take n2 (drop (b + n1) arr)) + mset (drop (b + n1 + n2) arr)"
    by (metis mset_append add.assoc)
  then show ?thesis by (simp add: merge_at_def mset_merge_runs)
qed

lemma merge_at_zero [simp]: "merge_at le arr b 0 0 = arr"
  by (simp add: merge_at_def)

lemma tim_sort_step_props:
  assumes st: "gtk_tim_sort_step ts arr = (stepped, c, arr', ts')"
    and bd: "sum_list (pending_runs ts) \<le> length arr"
  shows "length arr' = length arr"
    and "sum_list (pending_runs ts') \<le> length arr'"
    and "run_len c \<noteq> 0 \<longrightarrow> run_base c + run_len c \<le> length arr"
    and "\<forall>i. (run_len c \<noteq> 0 \<longrightarrow> i < run_base c \<or> run_base c + run_len c \<le> i)
               \<longrightarrow> arr' ! i = arr ! i"
    and "sort_data ts' = sort_data ts"
    and "max_merge_size ts' = max_merge_size ts"
    and "mset arr' = mset arr"
proof -
  show "length arr' = length arr"
    using st by (auto simp: gtk_tim_sort_step_def Let_def length_merge_at split: list.splits if_splits)
  show "sort_data ts' = sort_data ts" "max_merge_size ts' = max_merge_size ts"
    using st by (auto simp: gtk_tim_sort_step_def Let_def split: list.splits if_splits)
  show "mset arr' = mset arr"
    using st by (auto simp: gtk_tim_sort_step_def Let_def mset_merge_at split: list.splits if_splits)
  have cr: "count_run (tim_sort_le ts) (drop (sum_list (pending_runs ts)) arr)
              \<le> length arr - sum_list (pending_runs ts)"
    using count_run_le[of "tim_sort_le ts" "drop (sum_list (pending_runs ts)) arr"] by simp
  show "sum_list (pending_runs ts') \<le> length arr'"
    using st bd cr
    by (auto simp: gtk_tim_sort_step_def Let_def length_merge_at split: list.splits if_splits)
  show "run_len c \<noteq> 0 \<longrightarrow> run_base c + run_len c \<le> length arr"
    using st bd
    by (auto simp: gtk_tim_sort_step_def Let_def split: list.splits if_splits)
  show "\<forall>i. (run_len c \<noteq> 0 \<longrightarrow> i < run_base c \<or> run_base c + run_len c \<le> i)
               \<longrightarrow> arr' ! i = arr ! i"
    using st bd
    by (auto simp: gtk_tim_sort_step_def Let_def merge_at_nth_outside split: list.splits if_splits)
qed


lemma sort_step_loop_props:
  assumes "gtk_tim2_sort_model_sort_step_loop finish slice ts arr res s e seen
             = (ts', arr', res', s', e', seen')"
    and "sum_list (pending_runs ts) \<le> length arr"
  shows "\<exists>new. seen' = seen @ new \<and> (s', e') = foldl widen (s, e) new
           \<and> res' = (res \<or> new \<noteq> [])
           \<and> (\<forall>c \<in> set new. run_len c \<noteq> 0 \<longrightarrow> run_base c + run_len c \<le> length arr)
           \<and> length arr' = length arr \<and> mset arr' = mset arr
           \<and> (\<forall>i. (\<forall>c \<in> set new. run_len c \<noteq> 0
                       \<longrightarrow> i < run_base c \<or> run_base c + run_len c \<le> i)
                  \<longrightarrow> arr' ! i = arr ! i)
           \<and> sum_list (pending_runs ts') \<le> length arr'
           \<and> sort_data ts' = sort_data ts \<and> max_merge_size ts' = max_merge_size ts"
  using assms
proof (induction finish slice ts arr res s e seen
       rule: gtk_tim2_sort_model_sort_step_loop.induct)
  case (1 finish slice ts arr res s e seen)
  obtain stepped c arr1 ts1 where st: "gtk_tim_sort_step ts arr = (stepped, c, arr1, ts1)"
    by (metis prod_cases4)
  note sp = tim_sort_step_props[OF st "1.prems"(2)]
  show ?case
  proof (cases stepped)
    case False
    have "gtk_tim2_sort_model_sort_step_loop finish slice ts arr res s e seen
            = (ts1, arr1, res, s, e, seen)"
      by (subst gtk_tim2_sort_model_sort_step_loop.simps) (simp add: st False)
    with "1.prems"(1) have r: "ts' = ts1" "arr' = arr1" "res' = res" "s' = s" "e' = e" "seen' = seen"
      by simp_all
    from st False have "run_len c = 0"
      by (auto simp: gtk_tim_sort_step_def Let_def split: list.splits if_splits)
    with sp(4) have "\<forall>i. arr1 ! i = arr ! i" by simp
    with r sp show ?thesis by (intro exI[of _ "[]"]) simp
  next
    case True
    let ?s1 = "if run_len c \<noteq> 0 then min s (run_base c) else s"
    let ?e1 = "if run_len c \<noteq> 0 then max e (run_base c + run_len c) else e"
    have w: "widen (s, e) c = (?s1, ?e1)" by (simp add: widen_def)
    have unf: "gtk_tim2_sort_model_sort_step_loop finish slice ts arr res s e seen =
        (if slice \<le> 1 \<and> \<not> finish then (ts1, arr1, True, ?s1, ?e1, seen @ [c])
         else gtk_tim2_sort_model_sort_step_loop finish (slice - 1) ts1 arr1 True ?s1 ?e1
                (seen @ [c]))"
      by (subst gtk_tim2_sort_model_sort_step_loop.simps) (simp add: st True Let_def)
    show ?thesis
    proof (cases "slice \<le> 1 \<and> \<not> finish")
      case brk: True
      from "1.prems"(1)[unfolded unf] brk
      have r: "ts' = ts1" "arr' = arr1" "res' = True" "s' = ?s1" "e' = ?e1" "seen' = seen @ [c]"
        by simp_all
      have "(s', e') = foldl widen (s, e) [c]" using r w by simp
      with r sp show ?thesis by (intro exI[of _ "[c]"]) simp
    next
      case cont: False
      from "1.prems"(1)[unfolded unf] cont
      have rec: "gtk_tim2_sort_model_sort_step_loop finish (slice - 1) ts1 arr1 True ?s1 ?e1
                   (seen @ [c]) = (ts', arr', res', s', e', seen')"
        by (simp only: if_False)
      have nn: "\<not> \<not> stepped" using True by simp
      from "1.IH"[OF st[symmetric] refl refl refl nn refl refl cont rec sp(2)]
      obtain new where n:
        "seen' = (seen @ [c]) @ new" "(s', e') = foldl widen (?s1, ?e1) new"
        "res' = (True \<or> new \<noteq> [])"
        "\<forall>c \<in> set new. run_len c \<noteq> 0 \<longrightarrow> run_base c + run_len c \<le> length arr1"
        "length arr' = length arr1" "mset arr' = mset arr1"
        "\<forall>i. (\<forall>c \<in> set new. run_len c \<noteq> 0 \<longrightarrow> i < run_base c \<or> run_base c + run_len c \<le> i)
                  \<longrightarrow> arr' ! i = arr1 ! i"
        "sum_list (pending_runs ts') \<le> length arr'"
        "sort_data ts' = sort_data ts1" "max_merge_size ts' = max_merge_size ts1"
        by blast
      have f: "(s', e') = foldl widen (s, e) (c # new)"
        using n(2) w by (simp only: foldl_Cons)
      have fr: "\<forall>i. (\<forall>c' \<in> set (c # new). run_len c' \<noteq> 0
                       \<longrightarrow> i < run_base c' \<or> run_base c' + run_len c' \<le> i)
                  \<longrightarrow> arr' ! i = arr ! i"
      proof (intro allI impI)
        fix i
        assume a: "\<forall>c' \<in> set (c # new). run_len c' \<noteq> 0
                       \<longrightarrow> i < run_base c' \<or> run_base c' + run_len c' \<le> i"
        then have "arr' ! i = arr1 ! i" using n(7) by simp
        moreover have "arr1 ! i = arr ! i"
          using sp(4) a by simp
        ultimately show "arr' ! i = arr ! i" by simp
      qed
      show ?thesis
        using n(1,3,4,5,6,8,9,10) f fr sp
        by (intro exI[of _ "c # new"]) simp
    qed
  qed
qed


lemma changes_range_frame:
  assumes "i < fst (changes_range seen) \<or> fst (changes_range seen) + snd (changes_range seen) \<le> i"
    and "c \<in> set seen" "run_len c \<noteq> 0"
  shows "i < run_base c \<or> run_base c + run_len c \<le> i"
proof -
  let ?moved = "filter (\<lambda>c. run_len c \<noteq> 0) seen"
  have cm: "c \<in> set ?moved" using assms(2,3) by simp
  then have ne: "?moved \<noteq> []" by (metis empty_iff list.set(1))
  have lo: "Min (set (map run_base ?moved)) \<le> run_base c"
    using cm by (intro Min_le) auto
  have hi: "run_base c + run_len c \<le> Max (set (map (\<lambda>c. run_base c + run_len c) ?moved))"
    using cm by (intro Max_ge) auto
  from assms(1) ne lo hi show ?thesis
    by (auto simp: changes_range_def Let_def)
qed

text \<open>
  C8. A call of \<^verbatim>\<open>gtk_tim2_sort_model_sort_step\<close> on a buffer of fewer than \<open>2^32\<close> items
  returns, as position and length, the range from the least base to the greatest end of
  the changes the engine reported during the call with a length other than 0, and the
  empty range at 0 when there is none; the buffer is unchanged outside that range; and
  the idle callback emits that range as its notification, when it is not empty.
\<close>

theorem sort_step_range:
  assumes len: "length (items self) < 2 ^ 32"
    and bd: "sum_list (pending_runs (sort_ts self)) \<le> length (items self)"
    and loop: "gtk_tim2_sort_model_sort_step_loop finish slice (sort_ts self) (items self)
                 False (length (items self)) 0 [] = (ts', arr', result, sc, ec, seen)"
  shows "gtk_tim2_sort_model_sort_step self finish slice
           = (seen \<noteq> [], fst (changes_range seen), snd (changes_range seen),
              self\<lparr>sort_ts := ts', items := arr'\<rparr>)
         \<and> (\<forall>i. i < fst (changes_range seen)
                    \<or> fst (changes_range seen) + snd (changes_range seen) \<le> i
                  \<longrightarrow> arr' ! i = items self ! i)
         \<and> (\<not> finish \<longrightarrow>
              emitted (snd (gtk_tim2_sort_model_sort_cb slice self))
                = emitted self
                  @ (if snd (changes_range seen) \<noteq> 0
                     then [(fst (changes_range seen), snd (changes_range seen),
                            snd (changes_range seen))]
                     else []))"
proof -
  from sort_step_loop_props[OF loop bd] obtain new where n:
    "seen = [] @ new" "(sc, ec) = foldl widen (length (items self), 0) new"
    "result = (False \<or> new \<noteq> [])"
    "\<forall>c \<in> set new. run_len c \<noteq> 0 \<longrightarrow> run_base c + run_len c \<le> length (items self)"
    "\<forall>i. (\<forall>c \<in> set new. run_len c \<noteq> 0 \<longrightarrow> i < run_base c \<or> run_base c + run_len c \<le> i)
            \<longrightarrow> arr' ! i = items self ! i"
    by blast
  have sn: "seen = new" using n(1) by simp
  have rng: "(if sc < ec then (sc, ec - sc) else (0, 0)) = changes_range seen"
    using foldl_widen_range[OF n(2)[symmetric] n(4)] sn by simp
  from foldl_widen_props[OF n(2)[symmetric]] n(4)
  have "sc \<le> length (items self)" "ec \<le> length (items self)" by auto
  with len have g: "guint sc = sc" "guint (ec - sc) = ec - sc"
    by (simp_all add: guint_def)
  have step: "gtk_tim2_sort_model_sort_step self finish slice
           = (seen \<noteq> [], fst (changes_range seen), snd (changes_range seen),
              self\<lparr>sort_ts := ts', items := arr'\<rparr>)"
    using rng[symmetric] n(3) sn
    by (simp add: gtk_tim2_sort_model_sort_step_def sort_array_get_size_def loop Let_def g)
  have frame: "\<forall>i. i < fst (changes_range seen)
                    \<or> fst (changes_range seen) + snd (changes_range seen) \<le> i
                  \<longrightarrow> arr' ! i = items self ! i"
    using n(5) changes_range_frame[of _ seen] sn by blast
  have cb: "\<not> finish \<longrightarrow>
              emitted (snd (gtk_tim2_sort_model_sort_cb slice self))
                = emitted self
                  @ (if snd (changes_range seen) \<noteq> 0
                     then [(fst (changes_range seen), snd (changes_range seen),
                            snd (changes_range seen))]
                     else [])"
  proof
    assume "\<not> finish"
    then have f: "finish = False" by simp
    have e: "seen = [] \<Longrightarrow> snd (changes_range seen) = 0" by (simp add: changes_range_def)
    show "emitted (snd (gtk_tim2_sort_model_sort_cb slice self))
                = emitted self
                  @ (if snd (changes_range seen) \<noteq> 0
                     then [(fst (changes_range seen), snd (changes_range seen),
                            snd (changes_range seen))]
                     else [])"
      using step[unfolded f] e
      by (auto simp: gtk_tim2_sort_model_sort_cb_def g_list_model_items_changed_def
            gtk_tim2_sort_model_stop_sorting_def)
  qed
  from step frame cb show ?thesis by blast
qed

section \<open>The engine sorts\<close>

lemma set_merge_runs: "set (merge_runs le xs ys) = set xs \<union> set ys"
  by (induction le xs ys rule: merge_runs.induct) auto

lemma sorted_merge_runs:
  "le_lawful le \<Longrightarrow> sorted_wrt le xs \<Longrightarrow> sorted_wrt le ys
     \<Longrightarrow> sorted_wrt le (merge_runs le xs ys)"
proof (induction le xs ys rule: merge_runs.induct)
  case (3 le x xs y ys)
  have tot: "\<And>a b. \<not> le a b \<Longrightarrow> le b a" and tr: "\<And>a b c. le a b \<Longrightarrow> le b c \<Longrightarrow> le a c"
    using "3.prems"(1) unfolding le_lawful_def by blast+
  show ?case
  proof (cases "le x y")
    case True
    have "\<forall>z \<in> set (merge_runs le xs (y # ys)). le x z"
      using "3.prems" True tr by (auto simp: set_merge_runs)
    moreover have "sorted_wrt le (merge_runs le xs (y # ys))"
      using "3.IH"(1)[OF True] "3.prems" by simp
    ultimately show ?thesis using True by simp
  next
    case False
    then have yx: "le y x" by (rule tot)
    have "\<forall>z \<in> set (merge_runs le (x # xs) ys). le y z"
      using "3.prems" yx tr by (auto simp: set_merge_runs)
    moreover have "sorted_wrt le (merge_runs le (x # xs) ys)"
      using "3.IH"(2)[OF False] "3.prems" by simp
    ultimately show ?thesis using False by simp
  qed
qed simp_all

lemma sorted_count_run:
  "le_lawful le \<Longrightarrow> sorted_wrt le (take (count_run le xs) xs)"
proof (induction le xs rule: count_run.induct)
  case (3 le x y ys)
  have tr: "\<And>a b c. le a b \<Longrightarrow> le b c \<Longrightarrow> le a c"
    using "3.prems"(1) unfolding le_lawful_def by blast
  show ?case
  proof (cases "le x y")
    case True
    from "3.IH"[OF True "3.prems"] have s: "sorted_wrt le (take (count_run le (y # ys)) (y # ys))" .
    have pos: "0 < count_run le (y # ys)" by (rule count_run_pos) simp
    then obtain k where k: "count_run le (y # ys) = Suc k" by (cases "count_run le (y # ys)") auto
    from s k have "\<forall>z \<in> set (take k ys). le y z" "sorted_wrt le (take k ys)" by auto
    with True tr show ?thesis by (auto simp: k)
  next
    case False
    then show ?thesis by simp
  qed
qed simp_all


lemma take_merge_at: "k \<le> b \<Longrightarrow> take k (merge_at le arr b n1 n2) = take k arr"
  by (simp add: merge_at_def min_def)

lemma drop_merge_at:
  assumes "b + n1 + n2 \<le> length arr" "b + n1 + n2 \<le> j"
  shows "drop j (merge_at le arr b n1 n2) = drop j arr"
proof -
  let ?M = "merge_runs le (take n1 (drop b arr)) (take n2 (drop (b + n1) arr))"
  have lp: "length (take b arr @ ?M) = b + n1 + n2" using assms(1) by (simp add: length_merge_runs)
  have "merge_at le arr b n1 n2 = (take b arr @ ?M) @ drop (b + n1 + n2) arr"
    by (simp add: merge_at_def)
  then have "drop j (merge_at le arr b n1 n2) = drop (j - (b + n1 + n2)) (drop (b + n1 + n2) arr)"
    using lp assms(2) by simp
  also have "\<dots> = drop j arr" using assms(2) by simp
  finally show ?thesis .
qed

lemma mid_merge_at:
  assumes "b + n1 + n2 \<le> length arr"
  shows "take (n1 + n2) (drop b (merge_at le arr b n1 n2))
           = merge_runs le (take n1 (drop b arr)) (take n2 (drop (b + n1) arr))"
proof -
  let ?M = "merge_runs le (take n1 (drop b arr)) (take n2 (drop (b + n1) arr))"
  have lm: "length ?M = n1 + n2" using assms by (simp add: length_merge_runs)
  have "drop b (merge_at le arr b n1 n2) = ?M @ drop (b + n1 + n2) arr"
    using assms by (simp add: merge_at_def)
  then show ?thesis using lm by simp
qed

lemma take_drop_as_drop_take: "take l (drop j xs) = drop j (take (j + l) xs)"
  by (simp add: drop_take)

lemma runs_sorted_cong:
  "take (sum_list rs) arr = take (sum_list rs) arr' \<Longrightarrow>
     runs_sorted le rs arr = runs_sorted le rs arr'"
proof (induction rs)
  case Nil
  then show ?case by simp
next
  case (Cons l rs)
  from Cons.prems have t: "take (sum_list rs + l) arr = take (sum_list rs + l) arr'"
    by (simp add: add.commute)
  then have "take (sum_list rs) (take (sum_list rs + l) arr)
           = take (sum_list rs) (take (sum_list rs + l) arr')" by simp
  then have "take (sum_list rs) arr = take (sum_list rs) arr'" by (simp add: min_def)
  from Cons.IH[OF this] t show ?case
    by (simp add: take_drop_as_drop_take)
qed


lemma tim_sort_step_cases [consumes 1, case_names scan finished lo hi full]:
  assumes "gtk_tim_sort_step ts arr = (stepped, c, arr', ts')"
  obtains
    (scan) "sum_list (pending_runs ts) < length arr" "stepped"
      "c = \<lparr>run_base = sum_list (pending_runs ts), run_len = 0\<rparr>" "arr' = arr"
      "ts' = ts\<lparr>pending_runs :=
          count_run (tim_sort_le ts) (drop (sum_list (pending_runs ts)) arr) # pending_runs ts\<rparr>"
  | (finished) "\<not> sum_list (pending_runs ts) < length arr" "length (pending_runs ts) < 2"
      "\<not> stepped" "run_len c = 0" "arr' = arr" "ts' = ts"
  | (lo) l1 l2 rs where "\<not> sum_list (pending_runs ts) < length arr"
      "pending_runs ts = l2 # l1 # rs" "l1 \<le> l2" "max_merge_size ts \<noteq> 0" "max_merge_size ts < l1"
      "stepped"
      "c = \<lparr>run_base = sum_list rs + (l1 - max_merge_size ts), run_len = max_merge_size ts + l2\<rparr>"
      "arr' = merge_at (tim_sort_le ts) arr (sum_list rs + (l1 - max_merge_size ts))
                (max_merge_size ts) l2"
      "ts' = ts\<lparr>pending_runs := (l2 + max_merge_size ts) # (l1 - max_merge_size ts) # rs\<rparr>"
  | (hi) l1 l2 rs where "\<not> sum_list (pending_runs ts) < length arr"
      "pending_runs ts = l2 # l1 # rs" "l2 < l1" "max_merge_size ts \<noteq> 0" "max_merge_size ts < l2"
      "stepped"
      "c = \<lparr>run_base = sum_list rs, run_len = l1 + max_merge_size ts\<rparr>"
      "arr' = merge_at (tim_sort_le ts) arr (sum_list rs) l1 (max_merge_size ts)"
      "ts' = ts\<lparr>pending_runs := (l2 - max_merge_size ts) # (l1 + max_merge_size ts) # rs\<rparr>"
  | (full) l1 l2 rs where "\<not> sum_list (pending_runs ts) < length arr"
      "pending_runs ts = l2 # l1 # rs"
      "stepped"
      "c = \<lparr>run_base = sum_list rs, run_len = l1 + l2\<rparr>"
      "arr' = merge_at (tim_sort_le ts) arr (sum_list rs) l1 l2"
      "ts' = ts\<lparr>pending_runs := (l1 + l2) # rs\<rparr>"
proof (cases "sum_list (pending_runs ts) < length arr")
  case True
  with assms show ?thesis
    by (intro scan) (auto simp add: gtk_tim_sort_step_def Let_def)
next
  case nsc: False
  show ?thesis
  proof (cases "pending_runs ts")
    case Nil
    with assms nsc show ?thesis
      by (intro finished) (auto simp: gtk_tim_sort_step_def Let_def)
  next
    case (Cons l2 rest)
    show ?thesis
    proof (cases rest)
      case Nil
      with assms nsc Cons show ?thesis
        by (intro finished) (auto simp: gtk_tim_sort_step_def Let_def)
    next
      case c2: (Cons l1 rs)
      have pr: "pending_runs ts = l2 # l1 # rs" using Cons c2 by simp
      let ?m = "max_merge_size ts"
      show ?thesis
      proof (cases "l1 \<le> l2 \<and> ?m \<noteq> 0 \<and> ?m < l1")
        case True
        with assms nsc pr show ?thesis
          by (intro lo[of l2 l1 rs]) (auto simp: gtk_tim_sort_step_def Let_def)
      next
        case nlo: False
        show ?thesis
        proof (cases "l2 < l1 \<and> ?m \<noteq> 0 \<and> ?m < l2")
          case True
          with assms nsc pr nlo show ?thesis
            by (intro hi[of l2 l1 rs]) (auto simp: gtk_tim_sort_step_def Let_def)
        next
          case False
          with assms nsc pr nlo show ?thesis
            by (intro full[of l2 l1 rs]) (auto simp: gtk_tim_sort_step_def Let_def)
        qed
      qed
    qed
  qed
qed

lemma tim_sort_le_cong: "sort_data ts' = sort_data ts \<Longrightarrow> tim_sort_le ts' = tim_sort_le ts"
  by (simp add: tim_sort_le_def fun_eq_iff)

lemma tim_sort_le_pending_runs [simp]:
  "tim_sort_le (ts\<lparr>pending_runs := x\<rparr>) = tim_sort_le ts"
  by (simp add: tim_sort_le_def fun_eq_iff)

lemma tim_sort_le_max_merge_size [simp]:
  "tim_sort_le (ts\<lparr>max_merge_size := x\<rparr>) = tim_sort_le ts"
  by (simp add: tim_sort_le_def fun_eq_iff)

lemma tim_sort_step_inv:
  assumes law: "le_lawful (tim_sort_le ts)"
    and inv: "tim_sort_inv ts arr"
    and st: "gtk_tim_sort_step ts arr = (stepped, c, arr', ts')"
  shows "tim_sort_inv ts' arr'"
proof -
  let ?le = "tim_sort_le ts"
  have bd: "sum_list (pending_runs ts) \<le> length arr" and rs: "runs_sorted ?le (pending_runs ts) arr"
    using inv by (simp_all add: tim_sort_inv_def)
  note sp = tim_sort_step_props[OF st bd]
  have le': "tim_sort_le ts' = ?le" by (rule tim_sort_le_cong[OF sp(5)])
  from st show ?thesis
  proof (cases rule: tim_sort_step_cases)
    case scan
    have "sorted_wrt ?le (take (count_run ?le (drop (sum_list (pending_runs ts)) arr))
            (drop (sum_list (pending_runs ts)) arr))"
      by (rule sorted_count_run[OF law])
    with scan rs sp(2) show ?thesis
      by (simp add: tim_sort_inv_def le')
  next
    case finished
    with inv show ?thesis by simp
  next
    case (full l1 l2 rs')
    let ?b = "sum_list rs'"
    have tot: "?b + l1 + l2 \<le> length arr" using bd full(2) by simp
    from rs full(2) have r2: "sorted_wrt ?le (take l2 (drop (?b + l1) arr))"
      and r1: "sorted_wrt ?le (take l1 (drop ?b arr))" and r0: "runs_sorted ?le rs' arr"
      by (simp_all add: add.commute)
    have "sorted_wrt ?le (take (l1 + l2) (drop ?b arr'))"
      unfolding full(5) mid_merge_at[OF tot] by (rule sorted_merge_runs[OF law r1 r2])
    moreover have "runs_sorted ?le rs' arr'"
      using r0 runs_sorted_cong[of rs' arr' arr ?le] unfolding full(5)
      by (simp add: take_merge_at)
    ultimately show ?thesis using sp(2) full(6)
      by (simp add: tim_sort_inv_def le')
  next
    case (lo l1 l2 rs')
    let ?m = "max_merge_size ts"
    let ?b = "sum_list rs'"
    let ?b2 = "?b + (l1 - ?m)"
    have tot: "?b2 + ?m + l2 \<le> length arr" using bd lo(2,5) by simp
    from rs lo(2) have r2: "sorted_wrt ?le (take l2 (drop (?b + l1) arr))"
      and r1: "sorted_wrt ?le (take l1 (drop ?b arr))" and r0: "runs_sorted ?le rs' arr"
      by (simp_all add: add.commute)
    have p1: "take ?m (drop ?b2 arr) = drop (l1 - ?m) (take l1 (drop ?b arr))"
      using lo(5) by (simp add: drop_take add.commute)
    have s1: "sorted_wrt ?le (take ?m (drop ?b2 arr))"
      unfolding p1 by (rule sorted_wrt_drop[OF r1])
    have b2m: "?b2 + ?m = ?b + l1" using lo(5) by simp
    have "sorted_wrt ?le (take (?m + l2) (drop ?b2 arr'))"
      unfolding lo(8) mid_merge_at[OF tot] using sorted_merge_runs[OF law s1] r2 b2m by simp
    then have top: "sorted_wrt ?le (take (l2 + ?m) (drop (sum_list ((l1 - ?m) # rs')) arr'))"
      by (simp add: add.commute)
    have "take (l1 - ?m) (drop ?b arr') = drop ?b (take ?b2 arr')"
      by (simp add: drop_take)
    also have "\<dots> = drop ?b (take ?b2 arr)" unfolding lo(8) by (simp add: take_merge_at)
    also have "\<dots> = take (l1 - ?m) (take l1 (drop ?b arr))" by (simp add: drop_take min_def)
    finally have eq: "take (l1 - ?m) (drop ?b arr') = take (l1 - ?m) (take l1 (drop ?b arr))" .
    have "sorted_wrt ?le (take (l1 - ?m) (drop ?b arr'))"
      unfolding eq by (rule sorted_wrt_take[OF r1])
    moreover have "runs_sorted ?le rs' arr'"
      using r0 runs_sorted_cong[of rs' arr' arr ?le] unfolding lo(8)
      by (simp add: take_merge_at)
    ultimately show ?thesis using sp(2) lo(9) top
      by (simp add: tim_sort_inv_def le')
  next
    case (hi l1 l2 rs')
    let ?m = "max_merge_size ts"
    let ?b = "sum_list rs'"
    have tot: "?b + l1 + ?m \<le> length arr" using bd hi(2,5) by simp
    have tot2: "?b + l1 + l2 \<le> length arr" using bd hi(2) by simp
    from rs hi(2) have r2: "sorted_wrt ?le (take l2 (drop (?b + l1) arr))"
      and r1: "sorted_wrt ?le (take l1 (drop ?b arr))" and r0: "runs_sorted ?le rs' arr"
      by (simp_all add: add.commute)
    have eq2: "take ?m (drop (?b + l1) arr) = take ?m (take l2 (drop (?b + l1) arr))"
      using hi(5) by (simp add: min_def)
    have s2: "sorted_wrt ?le (take ?m (drop (?b + l1) arr))"
      unfolding eq2 by (rule sorted_wrt_take[OF r2])
    have snd_run: "sorted_wrt ?le (take (l1 + ?m) (drop ?b arr'))"
      unfolding hi(8) mid_merge_at[OF tot] by (rule sorted_merge_runs[OF law r1 s2])
    have "drop (?b + l1 + ?m) arr' = drop (?b + l1 + ?m) arr"
      unfolding hi(8) by (rule drop_merge_at[OF tot]) simp
    then have eq3: "take (l2 - ?m) (drop (?b + l1 + ?m) arr')
             = drop ?m (take l2 (drop (?b + l1) arr))"
      by (simp add: drop_take add.commute)
    have "sorted_wrt ?le (take (l2 - ?m) (drop (?b + l1 + ?m) arr'))"
      unfolding eq3 by (rule sorted_wrt_drop[OF r2])
    then have top: "sorted_wrt ?le (take (l2 - ?m) (drop (sum_list ((l1 + ?m) # rs')) arr'))"
      by (simp add: add.commute add.left_commute)
    have "runs_sorted ?le rs' arr'"
      using r0 runs_sorted_cong[of rs' arr' arr ?le] unfolding hi(8)
      by (simp add: take_merge_at)
    with snd_run top show ?thesis using sp(2) hi(9)
      by (simp add: tim_sort_inv_def le')
  qed
qed


lemma tim_sort_finished_sorted:
  assumes "tim_sort_inv ts arr" "\<not> sum_list (pending_runs ts) < length arr"
    "length (pending_runs ts) < 2"
  shows "sorted_wrt (tim_sort_le ts) arr"
proof (cases "pending_runs ts")
  case Nil
  with assms(2) show ?thesis by simp
next
  case (Cons l rest)
  with assms(3) have r: "pending_runs ts = [l]" by (cases rest) auto
  with assms(1,2) have "l = length arr" by (simp add: tim_sort_inv_def)
  with assms(1) r show ?thesis by (simp add: tim_sort_inv_def)
qed

lemma sort_step_loop_inv:
  assumes "le_lawful (tim_sort_le ts)" "tim_sort_inv ts arr"
    and "gtk_tim2_sort_model_sort_step_loop finish slice ts arr res s e seen
           = (ts', arr', res', s', e', seen')"
  shows "tim_sort_inv ts' arr' \<and> (finish \<longrightarrow> sorted_wrt (tim_sort_le ts) arr')"
  using assms
proof (induction finish slice ts arr res s e seen
       rule: gtk_tim2_sort_model_sort_step_loop.induct)
  case (1 finish slice ts arr res s e seen)
  obtain stepped c arr1 ts1 where st: "gtk_tim_sort_step ts arr = (stepped, c, arr1, ts1)"
    by (metis prod_cases4)
  have bd: "sum_list (pending_runs ts) \<le> length arr"
    using "1.prems"(2) by (simp add: tim_sort_inv_def)
  note sp = tim_sort_step_props[OF st bd]
  note inv1 = tim_sort_step_inv[OF "1.prems"(1,2) st]
  have le1: "tim_sort_le ts1 = tim_sort_le ts" by (rule tim_sort_le_cong[OF sp(5)])
  let ?s1 = "if run_len c \<noteq> 0 then min s (run_base c) else s"
  let ?e1 = "if run_len c \<noteq> 0 then max e (run_base c + run_len c) else e"
  show ?case
  proof (cases stepped)
    case False
    have "gtk_tim2_sort_model_sort_step_loop finish slice ts arr res s e seen
            = (ts1, arr1, res, s, e, seen)"
      by (subst gtk_tim2_sort_model_sort_step_loop.simps) (simp add: st False)
    with "1.prems"(3) have r: "ts' = ts1" "arr' = arr1" by simp_all
    from st False have "\<not> sum_list (pending_runs ts) < length arr"
      "length (pending_runs ts) < 2" "arr1 = arr"
      by (cases rule: tim_sort_step_cases; simp)+
    with tim_sort_finished_sorted[OF "1.prems"(2)] inv1 r show ?thesis by simp
  next
    case True
    have unf: "gtk_tim2_sort_model_sort_step_loop finish slice ts arr res s e seen =
        (if slice \<le> 1 \<and> \<not> finish then (ts1, arr1, True, ?s1, ?e1, seen @ [c])
         else gtk_tim2_sort_model_sort_step_loop finish (slice - 1) ts1 arr1 True ?s1 ?e1
                (seen @ [c]))"
      by (subst gtk_tim2_sort_model_sort_step_loop.simps) (simp add: st True Let_def)
    show ?thesis
    proof (cases "slice \<le> 1 \<and> \<not> finish")
      case brk: True
      from "1.prems"(3)[unfolded unf] brk have "ts' = ts1" "arr' = arr1" by simp_all
      with inv1 brk show ?thesis by simp
    next
      case cont: False
      from "1.prems"(3)[unfolded unf] cont
      have rec: "gtk_tim2_sort_model_sort_step_loop finish (slice - 1) ts1 arr1 True ?s1 ?e1
                   (seen @ [c]) = (ts', arr', res', s', e', seen')"
        by (simp only: if_False)
      have nn: "\<not> \<not> stepped" using True by simp
      have law1: "le_lawful (tim_sort_le ts1)" using "1.prems"(1) le1 by simp
      from "1.IH"[OF st[symmetric] refl refl refl nn refl refl cont law1 inv1 rec] le1
      show ?thesis by simp
    qed
  qed
qed


lemma finish_sorting_props:
  assumes law: "le_lawful (tim_sort_le (sort_ts self))"
    and inv: "tim_sort_inv (sort_ts self) (items self)"
    and fs: "gtk_tim2_sort_model_finish_sorting self = (pos, n, self')"
  shows "sorted_wrt (tim_sort_le (sort_ts self)) (items self')"
    and "mset (items self') = mset (items self)"
    and "sort_cb self' = 0"
    and "model self' = model self" and "sorter self' = sorter self"
    and "incremental self' = incremental self"
    and "emitted self' = emitted self" and "released self' = released self"
proof -
  let ?ts0 = "gtk_tim_sort_set_max_merge_size (sort_ts self) 0"
  have le0: "tim_sort_le ?ts0 = tim_sort_le (sort_ts self)"
    by (simp add: gtk_tim_sort_set_max_merge_size_def)
  have inv0: "tim_sort_inv ?ts0 (items self)"
    using inv by (simp add: tim_sort_inv_def gtk_tim_sort_set_max_merge_size_def)
  have law0: "le_lawful (tim_sort_le ?ts0)" using law le0 by simp
  obtain ts' arr' res' s' e' seen' where
    loop: "gtk_tim2_sort_model_sort_step_loop True 0 ?ts0 (items self) False
             (length (items self)) 0 [] = (ts', arr', res', s', e', seen')"
    by (metis prod_cases6)
  from sort_step_loop_inv[OF law0 inv0 loop] le0
  have srt: "sorted_wrt (tim_sort_le (sort_ts self)) arr'" by simp
  have bd0: "sum_list (pending_runs ?ts0) \<le> length (items self)"
    using inv0 by (simp add: tim_sort_inv_def)
  from sort_step_loop_props[OF loop bd0] have ms: "mset arr' = mset (items self)" by blast
  have it: "items self' = arr'"
    and rest: "sort_cb self' = 0" "model self' = model self" "sorter self' = sorter self"
      "incremental self' = incremental self"
      "emitted self' = emitted self" "released self' = released self"
    using fs
    by (auto simp: gtk_tim2_sort_model_finish_sorting_def gtk_tim2_sort_model_sort_step_def
          sort_array_get_size_def loop Let_def gtk_tim2_sort_model_stop_sorting_def
          split: if_splits)
  show "sorted_wrt (tim_sort_le (sort_ts self)) (items self')" using srt it by simp
  show "mset (items self') = mset (items self)" using ms it by simp
  show "sort_cb self' = 0" "model self' = model self" "sorter self' = sorter self"
      "incremental self' = incremental self"
      "emitted self' = emitted self" "released self' = released self"
    using rest by simp_all
qed

lemma sorter_lawful_le:
  "sorter_lawful srt \<Longrightarrow> sort_data ts = Some srt \<Longrightarrow> le_lawful (tim_sort_le ts)"
proof -
  assume law: "sorter_lawful srt" and d: "sort_data ts = Some srt"
  have le: "\<And>a b. tim_sort_le ts a b
              = (sorter_compare srt (item a) (item b) \<noteq> GTK_ORDERING_LARGER)"
    by (simp add: tim_sort_le_def sort_func_def gtk_sorter_compare_def d)
  show ?thesis
    unfolding le_lawful_def le using law[unfolded sorter_lawful_def] by blast
qed

lemma sorted_imp_buffer_sorted:
  assumes "sorted_wrt (tim_sort_le ts) (items self)" "sort_data ts = sorter self"
  shows "buffer_sorted self"
  unfolding buffer_sorted_def
proof (intro allI impI)
  fix i assume i: "Suc i < length (items self)"
  from assms(1) i have "tim_sort_le ts (items self ! i) (items self ! Suc i)"
    by (simp add: sorted_wrt_iff_nth_less)
  then show "sort_func (items self ! i) (items self ! Suc i) (sorter self) \<noteq> GTK_ORDERING_LARGER"
    using assms(2) by (simp add: tim_sort_le_def)
qed

lemma buffer_sorted_imp_sorted:
  assumes law: "le_lawful (tim_sort_le ts)" and d: "sort_data ts = sorter self"
    and b: "buffer_sorted self"
  shows "sorted_wrt (tim_sort_le ts) (items self)"
proof -
  have "transp (tim_sort_le ts)"
    unfolding transp_def using law unfolding le_lawful_def by blast
  from sorted_wrt_iff_nth_Suc_transp[OF this] b d show ?thesis
    by (simp add: buffer_sorted_def tim_sort_le_def)
qed

text \<open>
  C5. When an incremental sort is in flight and the sorter is total and transitive,
  \<^verbatim>\<open>gtk_tim2_sort_model_set_incremental\<close> with \<^verbatim>\<open>FALSE\<close> returns a model that is not
  sorting any more (\<^verbatim>\<open>sort_cb\<close> is 0), whose buffer holds the same items, fully sorted,
  and whose \<^verbatim>\<open>get_item\<close> reads that buffer at every position.
\<close>

theorem set_incremental_drains:
  assumes fl: "sort_in_flight self" and s: "sorter self = Some srt" and law: "sorter_lawful srt"
  shows "\<not> gtk_tim2_sort_model_is_sorting (gtk_tim2_sort_model_set_incremental self False)
         \<and> \<not> incremental (gtk_tim2_sort_model_set_incremental self False)
         \<and> buffer_sorted (gtk_tim2_sort_model_set_incremental self False)
         \<and> mset (items (gtk_tim2_sort_model_set_incremental self False)) = mset (items self)
         \<and> (model self \<noteq> None \<longrightarrow> items self \<noteq> [] \<longrightarrow>
              (\<forall>i < length (items (gtk_tim2_sort_model_set_incremental self False)).
                 gtk_tim2_sort_model_get_item (gtk_tim2_sort_model_set_incremental self False) i
                   = item (items (gtk_tim2_sort_model_set_incremental self False) ! i)))"
proof -
  let ?s0 = "self\<lparr>incremental := False\<rparr>"
  obtain pos n s1 where fs: "gtk_tim2_sort_model_finish_sorting ?s0 = (pos, n, s1)"
    by (metis prod_cases3)
  let ?r = "gtk_tim2_sort_model_set_incremental self False"
  have r: "?r = (if n \<noteq> 0 then g_list_model_items_changed s1 pos n n else s1)"
    using fl by (simp add: gtk_tim2_sort_model_set_incremental_def sort_in_flight_def
        gtk_tim2_sort_model_is_sorting_def fs Let_def)
  have d: "sort_data (sort_ts ?s0) = Some srt" using fl s by (simp add: sort_in_flight_def)
  have law0: "le_lawful (tim_sort_le (sort_ts ?s0))" by (rule sorter_lawful_le[OF law d])
  have inv0: "tim_sort_inv (sort_ts ?s0) (items ?s0)" using fl by (simp add: sort_in_flight_def)
  note fp = finish_sorting_props[OF law0 inv0 fs]
  have eqs: "items ?r = items s1" "sort_cb ?r = sort_cb s1" "incremental ?r = incremental s1"
    "sorter ?r = sorter s1" "model ?r = model s1"
    by (simp_all add: r g_list_model_items_changed_def)
  have "sorted_wrt (tim_sort_le (sort_ts self)) (items ?r)" using fp(1) eqs by simp
  moreover have "sort_data (sort_ts self) = sorter ?r" using fl eqs fp by (simp add: sort_in_flight_def)
  ultimately have bs: "buffer_sorted ?r" by (rule sorted_imp_buffer_sorted)
  have ms: "mset (items ?r) = mset (items self)" using fp(2) eqs by simp
  have gi: "model self \<noteq> None \<longrightarrow> items self \<noteq> [] \<longrightarrow>
              (\<forall>i < length (items ?r). gtk_tim2_sort_model_get_item ?r i = item (items ?r ! i))"
  proof (intro impI allI)
    fix i
    assume m: "model self \<noteq> None" and ne: "items self \<noteq> []" and i: "i < length (items ?r)"
    from ms ne have "items ?r \<noteq> []" by (metis mset_zero_iff)
    moreover have "model ?r \<noteq> None" using m eqs fp by simp
    ultimately show "gtk_tim2_sort_model_get_item ?r i = item (items ?r ! i)"
      using i by (auto simp: gtk_tim2_sort_model_get_item_def sort_array_is_empty_def
          sort_array_get_size_def)
  qed
  from bs ms gi eqs fp show ?thesis
    by (simp add: gtk_tim2_sort_model_is_sorting_def)
qed

section \<open>The public sequence interface\<close>

text \<open>
  C6. A change of the source with \<^verbatim>\<open>removed == 0\<close> and \<^verbatim>\<open>added == 0\<close> is a no-op:
  the handler returns the model as it was, so neither the engine, nor the buffer, nor
  the log of emitted notifications changes.
\<close>

theorem items_changed_cb_zero_noop:
  "gtk_tim2_sort_model_items_changed_cb emitter pos 0 0 self = Inr self"
  by (simp add: gtk_tim2_sort_model_items_changed_cb_def)

text \<open>
  C7. With a non-empty buffer, \<^verbatim>\<open>get_item\<close> at a position that is not below the size of
  the buffer is \<^verbatim>\<open>NULL\<close>; at a position below it, it is the handle of the buffer item at
  that position; with an empty buffer the call is that of the source model.
\<close>

theorem get_item_cases:
  "(items self \<noteq> [] \<and> length (items self) \<le> pos
      \<longrightarrow> gtk_tim2_sort_model_get_item self pos = None)
   \<and> (model self = Some m \<and> items self \<noteq> [] \<and> pos < length (items self)
      \<longrightarrow> gtk_tim2_sort_model_get_item self pos = item (items self ! pos))
   \<and> (model self = Some m \<and> items self = []
      \<longrightarrow> gtk_tim2_sort_model_get_item self pos = g_list_model_get_item m pos)"
  by (simp add: gtk_tim2_sort_model_get_item_def sort_array_is_empty_def
        sort_array_get_size_def split: option.split)

theorem get_item_cases_witness:
  "(let self = gtk_tim2_sort_model_init\<lparr>
        model := Some \<lparr>model_id = 1, model_items = [5, 3 :: int]\<rparr>,
        items := [\<lparr>item = Some 3, position = 1\<rparr>, \<lparr>item = Some 5, position = 0\<rparr>]\<rparr>
    in items self \<noteq> [] \<and> length (items self) \<le> 2
       \<and> gtk_tim2_sort_model_get_item self 2 = None
       \<and> model self = Some \<lparr>model_id = 1, model_items = [5, 3]\<rparr> \<and> 1 < length (items self)
       \<and> gtk_tim2_sort_model_get_item self 1 = Some 5)
   \<and> (let self = gtk_tim2_sort_model_init\<lparr>
          model := Some \<lparr>model_id = 1, model_items = [5, 3 :: int]\<rparr>\<rparr>
      in model self = Some \<lparr>model_id = 1, model_items = [5, 3]\<rparr> \<and> items self = []
         \<and> gtk_tim2_sort_model_get_item self 1 = Some 3
         \<and> gtk_tim2_sort_model_get_item self 2 = None)"
  using
    get_item_cases [of "gtk_tim2_sort_model_init\<lparr>
        model := Some \<lparr>model_id = 1, model_items = [5, 3 :: int]\<rparr>,
        items := [\<lparr>item = Some 3, position = 1\<rparr>, \<lparr>item = Some 5, position = 0\<rparr>]\<rparr>"
      2 "\<lparr>model_id = 1, model_items = [5, 3]\<rparr>"]
    get_item_cases [of "gtk_tim2_sort_model_init\<lparr>
        model := Some \<lparr>model_id = 1, model_items = [5, 3 :: int]\<rparr>,
        items := [\<lparr>item = Some 3, position = 1\<rparr>, \<lparr>item = Some 5, position = 0\<rparr>]\<rparr>"
      1 "\<lparr>model_id = 1, model_items = [5, 3]\<rparr>"]
    get_item_cases [of "gtk_tim2_sort_model_init\<lparr>
        model := Some \<lparr>model_id = 1, model_items = [5, 3 :: int]\<rparr>\<rparr>"
      1 "\<lparr>model_id = 1, model_items = [5, 3]\<rparr>"]
    get_item_cases [of "gtk_tim2_sort_model_init\<lparr>
        model := Some \<lparr>model_id = 1, model_items = [5, 3 :: int]\<rparr>\<rparr>"
      2 "\<lparr>model_id = 1, model_items = [5, 3]\<rparr>"]
  by (simp add: gtk_tim2_sort_model_init_def g_list_model_get_item_def)

text \<open>
  C10. With no source model attached the sequence is empty: the length is 0 and
  \<^verbatim>\<open>get_item\<close> is \<^verbatim>\<open>NULL\<close> at every position.
\<close>

theorem no_model_empty:
  "model self = None \<Longrightarrow>
     gtk_tim2_sort_model_get_n_items self = 0
     \<and> (\<forall>pos. gtk_tim2_sort_model_get_item self pos = None)"
  by (simp add: gtk_tim2_sort_model_get_n_items_def gtk_tim2_sort_model_get_item_def)

theorem no_model_empty_witness:
  "model (gtk_tim2_sort_model_init :: int gtk_tim2_sort_model) = None
   \<and> gtk_tim2_sort_model_get_n_items (gtk_tim2_sort_model_init :: int gtk_tim2_sort_model) = 0
   \<and> gtk_tim2_sort_model_get_item (gtk_tim2_sort_model_init :: int gtk_tim2_sort_model) 7 = None"
  using no_model_empty [of "gtk_tim2_sort_model_init :: int gtk_tim2_sort_model"]
  by (simp add: gtk_tim2_sort_model_init_def)

section \<open>The example, evaluated\<close>

text \<open>The definitions that evaluate a run of the model on concrete data.\<close>

lemmas eval_defs =
  gtk_tim2_sort_model_new_def gtk_tim2_sort_model_init_def
  gtk_tim2_sort_model_set_model_def gtk_tim2_sort_model_set_sorter_def
  gtk_tim2_sort_model_set_incremental_def
  gtk_tim2_sort_model_sorter_changed_cb_def gtk_tim2_sort_model_items_changed_cb_def
  gtk_tim2_sort_model_clear_model_def gtk_tim2_sort_model_clear_sorter_def
  gtk_tim2_sort_model_create_items_def
  gtk_tim2_sort_model_update_items_def gtk_tim2_sort_model_update_items_loop.simps
  gtk_tim2_sort_model_start_sorting_def gtk_tim2_sort_model_finish_sorting_def
  gtk_tim2_sort_model_stop_sorting_def gtk_tim2_sort_model_sort_step_def
  gtk_tim2_sort_model_sort_step_loop.simps gtk_tim2_sort_model_sort_cb_def
  gtk_tim2_sort_model_should_sort_def gtk_tim2_sort_model_is_sorting_def
  gtk_tim2_sort_model_get_n_items_def gtk_tim2_sort_model_get_item_def
  g_list_model_items_changed_def g_list_model_get_n_items_def g_list_model_get_item_def
  gtk_sorter_get_order_def gtk_sorter_compare_def sort_func_def
  gtk_tim_sort_init_def gtk_tim_sort_set_runs_def gtk_tim_sort_get_runs_def
  gtk_tim_sort_set_max_merge_size_def gtk_tim_sort_finish_def gtk_tim_sort_step_def
  tim_sort_le_def merge_at_def append_items_loop.simps
  sort_array_get_size_def sort_array_is_empty_def sort_array_append_def
  sort_array_set_size_def sort_array_clear_def sort_item_clear_def
  guint_def guint_add_def guint_sub_def gsize_sub_def
  source_items_changed_def source_sorter_changed_def
  ascending_numeric_def example_source_def example_in_flight_def view_def Let_def

text \<open>
  The states \<open>example_in_flight\<close> are reached: by switching a new model to incremental mode
  and attaching the example source and sorter, and then by letting the idle callback run
  for one and for four engine steps.
\<close>

lemma example_in_flight_reached:
  "(case gtk_tim2_sort_model_set_model
           (gtk_tim2_sort_model_set_incremental gtk_tim2_sort_model_init True)
           (Some example_source) of
      Inl err \<Rightarrow> Inl err
    | Inr self \<Rightarrow> gtk_tim2_sort_model_set_sorter self (Some ascending_numeric))
   = Inr (example_in_flight [])"
  "gtk_tim2_sort_model_sort_cb 1 (example_in_flight []) = (True, example_in_flight [1])"
  "gtk_tim2_sort_model_sort_cb 4 (example_in_flight []) = (True, example_in_flight [1, 2, 1, 1])"
  by (simp_all add: eval_defs)

lemma ascending_numeric_lawful: "sorter_lawful ascending_numeric"
  by (auto simp: sorter_lawful_def ascending_numeric_def split: option.splits if_splits)

theorem set_incremental_drains_witness:
  "sort_in_flight (example_in_flight [1])
   \<and> sorter (example_in_flight [1]) = Some ascending_numeric
   \<and> sorter_lawful ascending_numeric
   \<and> \<not> gtk_tim2_sort_model_is_sorting
         (gtk_tim2_sort_model_set_incremental (example_in_flight [1]) False)
   \<and> buffer_sorted (gtk_tim2_sort_model_set_incremental (example_in_flight [1]) False)
   \<and> view (gtk_tim2_sort_model_set_incremental (example_in_flight [1]) False)
       = [Some 1, Some 2, Some 3, Some 4, Some 5]"
proof -
  have fl: "sort_in_flight (example_in_flight [1])"
    by (simp add: sort_in_flight_def tim_sort_inv_def example_in_flight_def
          gtk_tim2_sort_model_is_sorting_def)
  have s: "sorter (example_in_flight [1]) = Some ascending_numeric"
    by (simp add: example_in_flight_def)
  have v: "view (gtk_tim2_sort_model_set_incremental (example_in_flight [1]) False)
       = [Some 1, Some 2, Some 3, Some 4, Some 5]"
    by (simp add: eval_defs upt_rec)
  from set_incremental_drains[OF fl s ascending_numeric_lawful] fl s ascending_numeric_lawful v
  show ?thesis by simp
qed

theorem sort_step_range_witness:
  "length (items (example_in_flight [1, 2, 1, 1])) < 2 ^ 32
   \<and> sum_list (pending_runs (sort_ts (example_in_flight [1, 2, 1, 1])))
       \<le> length (items (example_in_flight [1, 2, 1, 1]))
   \<and> changes_range [\<lparr>run_base = 2, run_len = 3\<rparr>, \<lparr>run_base = 1, run_len = 4\<rparr>] = (1, 4)
   \<and> (\<exists>self'. gtk_tim2_sort_model_sort_step (example_in_flight [1, 2, 1, 1]) False 2
                  = (True, 1, 4, self')
              \<and> map item (items self') = [Some 5, Some 1, Some 2, Some 3, Some 4])
   \<and> emitted (snd (gtk_tim2_sort_model_sort_cb 2 (example_in_flight [1, 2, 1, 1])))
       = [(0, 0, 5), (1, 4, 4)]"
proof -
  let ?S = "example_in_flight [1, 2, 1, 1]"
  let ?ts' = "\<lparr>pending_runs = [4, 1], max_merge_size = 1024,
               sort_data = Some ascending_numeric\<rparr>"
  let ?arr' = "[\<lparr>item = Some 5, position = 0\<rparr>, \<lparr>item = Some 1, position = 2\<rparr>,
               \<lparr>item = Some 2, position = 4\<rparr>, \<lparr>item = Some 3, position = 1\<rparr>,
               \<lparr>item = Some (4 :: int), position = 3\<rparr>]"
  let ?seen = "[\<lparr>run_base = 2, run_len = 3\<rparr>, \<lparr>run_base = 1, run_len = 4\<rparr>]"
  have len: "length (items ?S) < 2 ^ 32" by (simp add: example_in_flight_def)
  have bd: "sum_list (pending_runs (sort_ts ?S)) \<le> length (items ?S)"
    by (simp add: example_in_flight_def)
  have loop: "gtk_tim2_sort_model_sort_step_loop False 2 (sort_ts ?S) (items ?S)
                 False (length (items ?S)) 0 [] = (?ts', ?arr', True, 1, 5, ?seen)"
    by (simp add: eval_defs)
  have cr: "changes_range ?seen = (1, 4)"
    by (simp add: changes_range_def)
  from sort_step_range[OF len bd loop] len bd cr show ?thesis
    by (simp add: example_in_flight_def)
qed

section \<open>Synchronous mode keeps the buffer sorted\<close>

lemma le_lawful_sorter:
  assumes "\<forall>srt. sorter self = Some srt \<longrightarrow> sorter_lawful srt" "sort_data ts = sorter self"
  shows "le_lawful (tim_sort_le ts)"
proof (cases "sorter self")
  case None
  then have "\<And>a b. tim_sort_le ts a b"
    using assms(2) by (simp add: tim_sort_le_def sort_func_def gtk_sorter_compare_def)
  then show ?thesis by (simp add: le_lawful_def)
next
  case (Some srt)
  with assms show ?thesis by (intro sorter_lawful_le[of srt]) simp_all
qed

lemma stop_sorting_idle:
  "sort_cb self = 0 \<Longrightarrow>
     gtk_tim2_sort_model_stop_sorting self w
       = (self, if w then [sort_array_get_size (items self), 0] else [])"
  by (simp add: gtk_tim2_sort_model_stop_sorting_def)

lemma sort_now:
  assumes ni: "\<not> incremental self" and cb: "sort_cb self = 0"
    and law: "\<forall>srt. sorter self = Some srt \<longrightarrow> sorter_lawful srt"
    and rn: "runs = None \<or> (\<exists>rest. runs = Some (0 # rest))"
  shows "\<exists>s1 p n s2. gtk_tim2_sort_model_start_sorting self runs = Inr (False, s1)
           \<and> gtk_tim2_sort_model_finish_sorting s1 = (p, n, s2)
           \<and> buffer_sorted s2 \<and> sort_cb s2 = 0 \<and> \<not> incremental s2
           \<and> sorter s2 = sorter self \<and> model s2 = model self
           \<and> mset (items s2) = mset (items self)
           \<and> emitted s2 = emitted self \<and> released s2 = released self"
proof -
  let ?ts = "\<lparr>pending_runs = [], max_merge_size = 0, sort_data = sorter self\<rparr>"
  let ?s1 = "self\<lparr>sort_ts := ?ts\<rparr>"
  have st: "gtk_tim2_sort_model_start_sorting self runs = Inr (False, ?s1)"
    using ni cb rn
    by (auto simp: gtk_tim2_sort_model_start_sorting_def gtk_tim_sort_init_def
          gtk_tim_sort_set_runs_def Let_def)
  obtain p n s2 where fs: "gtk_tim2_sort_model_finish_sorting ?s1 = (p, n, s2)"
    by (metis prod_cases3)
  have law1: "le_lawful (tim_sort_le (sort_ts ?s1))"
    by (rule le_lawful_sorter[of self]) (use law in simp_all)
  have inv1: "tim_sort_inv (sort_ts ?s1) (items ?s1)" by (simp add: tim_sort_inv_def)
  note fp = finish_sorting_props[OF law1 inv1 fs]
  have "buffer_sorted s2"
    by (rule sorted_imp_buffer_sorted[OF fp(1)]) (simp add: fp)
  with st fs fp ni show ?thesis by simp
qed


lemma buffer_sorted_cong:
  "items s' = items s \<Longrightarrow> sorter s' = sorter s \<Longrightarrow> buffer_sorted s' = buffer_sorted s"
  by (simp add: buffer_sorted_def)

lemma buffer_sorted_empty: "items s = [] \<Longrightarrow> buffer_sorted s"
  by (simp add: buffer_sorted_def)

lemma clear_items_fields:
  assumes "gtk_tim2_sort_model_clear_items self w = (p, n, s')"
  shows "items s' = []" "sort_cb s' = 0" "incremental s' = incremental self"
    "sorter s' = sorter self" "model s' = model self" "emitted s' = emitted self"
  using assms
  by (auto simp: gtk_tim2_sort_model_clear_items_def gtk_tim2_sort_model_stop_sorting_def
        sort_array_clear_def Let_def split: if_splits prod.splits)

lemma create_items_fields:
  "sort_cb (gtk_tim2_sort_model_create_items self) = sort_cb self"
  "incremental (gtk_tim2_sort_model_create_items self) = incremental self"
  "sorter (gtk_tim2_sort_model_create_items self) = sorter self"
  "model (gtk_tim2_sort_model_create_items self) = model self"
  "emitted (gtk_tim2_sort_model_create_items self) = emitted self"
  by (simp_all add: gtk_tim2_sort_model_create_items_def Let_def split: option.splits)

lemma items_changed_fields:
  "items (g_list_model_items_changed s a b c) = items s"
  "sort_cb (g_list_model_items_changed s a b c) = sort_cb s"
  "incremental (g_list_model_items_changed s a b c) = incremental s"
  "sorter (g_list_model_items_changed s a b c) = sorter s"
  "model (g_list_model_items_changed s a b c) = model s"
  by (simp_all add: g_list_model_items_changed_def)

lemma sorter_changed_cb_sync:
  assumes ni: "\<not> incremental s" and cb: "sort_cb s = 0"
    and law: "\<forall>srt. sorter s = Some srt \<longrightarrow> sorter_lawful srt"
    and r: "gtk_tim2_sort_model_sorter_changed_cb srt change s = Inr s'"
  shows "\<not> incremental s' \<and> sort_cb s' = 0 \<and> sorter s' = sorter s \<and> model s' = model s
         \<and> buffer_sorted s'"
proof (cases "gtk_sorter_get_order srt = GTK_SORTER_ORDER_NONE")
  case True
  obtain p n s1 where ci: "gtk_tim2_sort_model_clear_items s True = (p, n, s1)"
    by (metis prod_cases3)
  from r True ci have s': "s' = (if n > 0 then g_list_model_items_changed s1 p n n else s1)"
    by (simp add: gtk_tim2_sort_model_sorter_changed_cb_def)
  note cf = clear_items_fields[OF ci]
  have "buffer_sorted s'" by (rule buffer_sorted_empty) (simp add: s' items_changed_fields cf)
  then show ?thesis using ni by (simp add: s' items_changed_fields cf)
next
  case False
  let ?s0 = "if sort_array_is_empty (items s) then gtk_tim2_sort_model_create_items s else s"
  have f0: "\<not> incremental ?s0" "sort_cb ?s0 = 0" "sorter ?s0 = sorter s" "model ?s0 = model s"
    using ni cb by (simp_all add: create_items_fields)
  have law0: "\<forall>srt. sorter ?s0 = Some srt \<longrightarrow> sorter_lawful srt" using law f0 by simp
  from sort_now[OF f0(1,2) law0, of None] obtain s1 p n s2 where
    sn: "gtk_tim2_sort_model_start_sorting ?s0 None = Inr (False, s1)"
      "gtk_tim2_sort_model_finish_sorting s1 = (p, n, s2)"
      "buffer_sorted s2" "sort_cb s2 = 0" "\<not> incremental s2"
      "sorter s2 = sorter ?s0" "model s2 = model ?s0"
    by blast
  have ss: "fst (gtk_tim2_sort_model_stop_sorting ?s0 False) = ?s0"
    using f0(2) by (simp add: stop_sorting_idle)
  from r False have s': "s' = (if n > 0 then g_list_model_items_changed s2 p n n else s2)"
    by (simp add: gtk_tim2_sort_model_sorter_changed_cb_def Let_def ss sn(1,2))
  have "buffer_sorted s'"
    using sn(3) buffer_sorted_cong[of s' s2] by (simp add: s' items_changed_fields)
  then show ?thesis using sn f0 by (simp add: s' items_changed_fields)
qed

lemma set_sorter_sync:
  assumes inv: "sync_sorted s"
    and law: "case new_sorter of None \<Rightarrow> True | Some srt \<Rightarrow> sorter_lawful srt"
    and r: "gtk_tim2_sort_model_set_sorter s new_sorter = Inr s'"
  shows "sync_sorted s'"
proof (cases new_sorter)
  case None
  with r have "s' = (let s0 = gtk_tim2_sort_model_clear_sorter s;
                         n = gtk_tim2_sort_model_get_n_items s0
                     in if n > 1 then g_list_model_items_changed s0 0 n n else s0)"
    by (simp add: gtk_tim2_sort_model_set_sorter_def Let_def)
  then have "sorter s' = None" "incremental s' = incremental s" "sort_cb s' = sort_cb s"
    by (simp_all add: Let_def items_changed_fields gtk_tim2_sort_model_clear_sorter_def)
  with inv show ?thesis
    by (simp add: sync_sorted_def gtk_tim2_sort_model_should_sort_def)
next
  case (Some srt)
  let ?s1 = "(gtk_tim2_sort_model_clear_sorter s)\<lparr>sorter := Some srt\<rparr>"
  from r Some have r1: "gtk_tim2_sort_model_sorter_changed_cb srt GTK_SORTER_CHANGE_DIFFERENT ?s1 = Inr s'"
    by (simp add: gtk_tim2_sort_model_set_sorter_def Let_def)
  have f1: "\<not> incremental ?s1" "sort_cb ?s1 = 0" "sorter ?s1 = Some srt"
    using inv by (simp_all add: sync_sorted_def gtk_tim2_sort_model_clear_sorter_def)
  have law1: "\<forall>srt'. sorter ?s1 = Some srt' \<longrightarrow> sorter_lawful srt'"
    using law Some f1(3) by simp
  from sorter_changed_cb_sync[OF f1(1,2) law1 r1] law1 show ?thesis
    by (simp add: sync_sorted_def)
qed

lemma source_sorter_changed_sync:
  assumes inv: "sync_sorted s" and law: "sorter_lawful srt"
    and r: "source_sorter_changed srt change s = Inr s'"
  shows "sync_sorted s'"
proof -
  let ?s1 = "s\<lparr>sorter := Some srt\<rparr>"
  from r have r1: "gtk_tim2_sort_model_sorter_changed_cb srt change ?s1 = Inr s'"
    by (simp add: source_sorter_changed_def)
  have f1: "\<not> incremental ?s1" "sort_cb ?s1 = 0" "sorter ?s1 = Some srt"
    using inv by (simp_all add: sync_sorted_def)
  have law1: "\<forall>srt'. sorter ?s1 = Some srt' \<longrightarrow> sorter_lawful srt'"
    using law by simp
  from sorter_changed_cb_sync[OF f1(1,2) law1 r1] law1 show ?thesis
    by (simp add: sync_sorted_def)
qed

lemma update_items_items:
  assumes ok: "gtk_tim2_sort_model_update_items self runs pos removed added
                 = Inr (s1, runs', st, e)"
  shows "items s1 = spec_update_items pos removed added
                      (take (guint (length (items self))) (items self))"
    and "runs' = runs[0 := 0]"
    and "sort_cb s1 = sort_cb self" and "incremental s1 = incremental self"
    and "sorter s1 = sorter self" and "model s1 = model self" and "emitted s1 = emitted self"
proof -
  let ?n = "guint (length (items self))"
  have nle: "?n \<le> length (items self)" by (simp add: guint_def)
  obtain arr' valid' st' e' rel' where
    loop: "gtk_tim2_sort_model_update_items_loop pos removed added ?n 0 (items self) 0 ?n ?n
             (released self) = (arr', valid', st', e', rel')"
    by (metis prod_cases5)
  from update_items_loop_spec[where valid = 0 and i = 0 and n = ?n and arr = "items self"
      and pos = pos and removed = removed and added = added and start = ?n and e = ?n
      and rel = "released self"] loop nle
  have tk: "take valid' arr' = spec_update_items pos removed added (take ?n (items self))"
   and v: "valid' = length (spec_update_items pos removed added (take ?n (items self)))"
   and la: "length arr' = length (items self)"
    by auto
  have "length (take valid' arr') = valid'" using tk v by simp
  then have vle: "valid' \<le> length arr'" by simp
  have ms: "take valid' (memset_items arr' valid' removed) = take valid' arr'"
    using vle by (simp add: memset_items_eq)
  have lms: "valid' \<le> length (memset_items arr' valid' removed)"
    using vle by (simp add: memset_items_eq)
  obtain arr2 rel2 where ss: "sort_array_set_size (memset_items arr' valid' removed) valid' rel'
        = (arr2, rel2)" by (metis surj_pair)
  then have a2: "arr2 = take valid' arr'"
    using lms ms by (simp add: sort_array_set_size_def)
  from ok have asrt: "valid' = guint_sub ?n removed"
    by (auto simp: gtk_tim2_sort_model_update_items_def sort_array_get_size_def loop Let_def
          split: if_splits)
  from ok have "s1 = self\<lparr>items := arr2, released := rel2\<rparr> \<and> runs' = runs[0 := 0]"
    by (simp add: gtk_tim2_sort_model_update_items_def sort_array_get_size_def loop Let_def
          asrt[symmetric] ss)
  then have s1: "s1 = self\<lparr>items := arr2, released := rel2\<rparr>" and rr: "runs' = runs[0 := 0]"
    by simp_all
  show "items s1 = spec_update_items pos removed added (take ?n (items self))"
    by (simp add: s1 a2 tk)
  show "runs' = runs[0 := 0]" by (rule rr)
  show "sort_cb s1 = sort_cb self" "incremental s1 = incremental self"
    "sorter s1 = sorter self" "model s1 = model self" "emitted s1 = emitted self"
    by (simp_all add: s1)
qed

lemma sorted_spec_update_items:
  assumes "sorted_wrt (tim_sort_le ts) arr"
  shows "sorted_wrt (tim_sort_le ts) (spec_update_items pos removed added (take k arr))"
proof -
  let ?f = "\<lambda>si :: 'a sort_item. if position si \<ge> guint_add pos removed
               then si\<lparr>position := guint_add (guint_sub (position si) removed) added\<rparr>
               else si"
  have it: "\<And>si. item (?f si) = item si" by simp
  have le: "\<And>a b. tim_sort_le ts (?f a) (?f b) = tim_sort_le ts a b"
    unfolding tim_sort_le_def sort_func_def it ..
  have "sorted_wrt (tim_sort_le ts)
          (filter (\<lambda>si. \<not> (pos \<le> position si \<and> position si < guint_add pos removed)) (take k arr))"
    by (intro sorted_wrt_filter sorted_wrt_take assms)
  then show ?thesis
    unfolding spec_update_items_def sorted_wrt_map le .
qed


lemma clear_model_fields:
  "incremental (gtk_tim2_sort_model_clear_model s) = incremental s"
  "sorter (gtk_tim2_sort_model_clear_model s) = sorter s"
  "model (gtk_tim2_sort_model_clear_model s) = None"
  "sort_cb s = 0 \<Longrightarrow> sort_cb (gtk_tim2_sort_model_clear_model s) = 0"
  by (auto simp: gtk_tim2_sort_model_clear_model_def gtk_tim2_sort_model_clear_items_def
        gtk_tim2_sort_model_stop_sorting_def sort_array_clear_def Let_def split: prod.splits)

lemma set_model_sync:
  assumes inv: "sync_sorted s"
    and r: "gtk_tim2_sort_model_set_model s new_model = Inr s'"
  shows "sync_sorted s'"
proof (cases "map_option model_id (model s) = map_option model_id new_model")
  case True
  with r inv show ?thesis by (simp add: gtk_tim2_sort_model_set_model_def)
next
  case ne: False
  note r' = r[unfolded gtk_tim2_sort_model_set_model_def if_not_P[OF ne]]
  let ?s0 = "gtk_tim2_sort_model_clear_model s"
  have f0: "\<not> incremental ?s0" "sort_cb ?s0 = 0" "sorter ?s0 = sorter s" "model ?s0 = None"
    using inv by (simp_all add: sync_sorted_def clear_model_fields)
  have law: "\<forall>srt. sorter s = Some srt \<longrightarrow> sorter_lawful srt"
    using inv by (simp add: sync_sorted_def)
  show ?thesis
  proof (cases new_model)
    case None
    with r' have "s' = (if gtk_tim2_sort_model_get_n_items s > 0
                         then g_list_model_items_changed ?s0 0 (gtk_tim2_sort_model_get_n_items s) 0
                         else ?s0)"
      by (simp add: Let_def)
    then have "\<not> incremental s'" "sort_cb s' = 0" "sorter s' = sorter s" "model s' = None"
      using f0 by (simp_all add: items_changed_fields)
    with law show ?thesis
      by (simp add: sync_sorted_def gtk_tim2_sort_model_should_sort_def split: option.splits)
  next
    case (Some m)
    let ?s2 = "gtk_tim2_sort_model_create_items (?s0\<lparr>model := Some m\<rparr>)"
    have f2: "\<not> incremental ?s2" "sort_cb ?s2 = 0" "sorter ?s2 = sorter s"
      using f0 by (simp_all add: create_items_fields)
    have law2: "\<forall>srt. sorter ?s2 = Some srt \<longrightarrow> sorter_lawful srt" using law f2 by simp
    from sort_now[OF f2(1,2) law2, of None] obtain s3 p n s4 where
      sn: "gtk_tim2_sort_model_start_sorting ?s2 None = Inr (False, s3)"
        "gtk_tim2_sort_model_finish_sorting s3 = (p, n, s4)"
        "buffer_sorted s4" "sort_cb s4 = 0" "\<not> incremental s4" "sorter s4 = sorter ?s2"
      by blast
    from r' Some have "s' = (if gtk_tim2_sort_model_get_n_items s > 0 \<or> g_list_model_get_n_items m > 0
                         then g_list_model_items_changed s4 0 (gtk_tim2_sort_model_get_n_items s)
                                (g_list_model_get_n_items m)
                         else s4)"
      by (simp add: Let_def sn(1,2))
    then have e: "items s' = items s4" "sort_cb s' = sort_cb s4" "incremental s' = incremental s4"
      "sorter s' = sorter s4"
      by (simp_all add: items_changed_fields)
    have "buffer_sorted s'" using sn(3) buffer_sorted_cong[OF e(1) e(4)] by simp
    with e sn f2 law show ?thesis by (simp add: sync_sorted_def)
  qed
qed

lemma source_items_changed_sync:
  assumes inv: "sync_sorted s" and att: "model s \<noteq> None"
    and r: "source_items_changed m pos removed added s = Inr s'"
  shows "sync_sorted s'"
proof -
  let ?s1 = "s\<lparr>model := Some m\<rparr>"
  have ss: "gtk_tim2_sort_model_should_sort ?s1 = gtk_tim2_sort_model_should_sort s"
    using att by (simp add: gtk_tim2_sort_model_should_sort_def split: option.splits)
  have inv1: "sync_sorted ?s1"
    using inv ss buffer_sorted_cong[of ?s1 s] by (simp add: sync_sorted_def)
  have f1: "\<not> incremental ?s1" "sort_cb ?s1 = 0"
    and law: "\<forall>srt. sorter ?s1 = Some srt \<longrightarrow> sorter_lawful srt"
    using inv1 by (simp_all add: sync_sorted_def)
  from r have r1: "gtk_tim2_sort_model_items_changed_cb m pos removed added ?s1 = Inr s'"
    by (simp add: source_items_changed_def)
  show ?thesis
  proof (cases "removed = 0 \<and> added = 0")
    case True
    with r1 inv1 show ?thesis by (simp add: gtk_tim2_sort_model_items_changed_cb_def)
  next
    case nz: False
    show ?thesis
    proof (cases "gtk_tim2_sort_model_should_sort ?s1")
      case False
      with r1 nz have s': "s' = g_list_model_items_changed ?s1 pos removed added"
        by (auto simp: gtk_tim2_sort_model_items_changed_cb_def)
      have "gtk_tim2_sort_model_should_sort s' = gtk_tim2_sort_model_should_sort ?s1"
        by (simp add: s' gtk_tim2_sort_model_should_sort_def items_changed_fields
              split: option.splits)
      with False inv1 show ?thesis
        by (simp add: sync_sorted_def s' items_changed_fields)
    next
      case sh: True
      let ?runs = "[sort_array_get_size (items ?s1), 0]"
      have stp: "gtk_tim2_sort_model_stop_sorting ?s1 True = (?s1, ?runs)"
        using f1(2) by (simp add: stop_sorting_idle)
      have ws: "\<not> gtk_tim2_sort_model_is_sorting ?s1"
        using f1(2) by (simp add: gtk_tim2_sort_model_is_sorting_def)
      show ?thesis
      proof (cases "gtk_tim2_sort_model_update_items ?s1 ?runs pos removed added")
        case (Inl err)
        with r1 nz sh stp show ?thesis
          by (auto simp: gtk_tim2_sort_model_items_changed_cb_def Let_def)
      next
        case (Inr res)
        then obtain s2 runs' st e where
          ui: "gtk_tim2_sort_model_update_items ?s1 ?runs pos removed added
                 = Inr (s2, runs', st, e)"
          by (metis prod_cases4)
        note uf = update_items_items[OF ui]
        have rz: "runs' = [0, 0]" using uf(2) by simp
        let ?ts = "gtk_tim_sort_init (sorter ?s1)"
        have d: "sort_data ?ts = sorter ?s1" by (simp add: gtk_tim_sort_init_def)
        have lw: "le_lawful (tim_sort_le ?ts)" by (rule le_lawful_sorter[OF law d])
        have bs1: "buffer_sorted ?s1" using inv1 sh by (simp add: sync_sorted_def)
        have "sorted_wrt (tim_sort_le ?ts) (items ?s1)"
          by (rule buffer_sorted_imp_sorted[OF lw d bs1])
        then have "sorted_wrt (tim_sort_le ?ts) (items s2)"
          unfolding uf(1) by (rule sorted_spec_update_items)
        then have bs2: "buffer_sorted s2"
          by (rule sorted_imp_buffer_sorted) (simp add: gtk_tim_sort_init_def uf)
        have f2: "\<not> incremental s2" "sort_cb s2 = 0" "sorter s2 = sorter ?s1"
          using f1 uf by simp_all
        show ?thesis
        proof (cases "added > 0")
          case False
          with r1 nz sh stp ui ws obtain a b c where
            s': "s' = g_list_model_items_changed s2 a b c"
            by (auto simp: gtk_tim2_sort_model_items_changed_cb_def Let_def)
          have "buffer_sorted s'"
            using bs2 buffer_sorted_cong[of s' s2] by (simp add: s' items_changed_fields)
          with f2 law show ?thesis
            by (simp add: sync_sorted_def s' items_changed_fields)
        next
          case ad: True
          let ?s3 = "s2\<lparr>items := (case model s2 of None \<Rightarrow> items s2
                      | Some m \<Rightarrow> append_items_loop m pos (guint_add pos added) (items s2))\<rparr>"
          have f3: "\<not> incremental ?s3" "sort_cb ?s3 = 0" "sorter ?s3 = sorter ?s1"
            using f2 by simp_all
          have law3: "\<forall>srt. sorter ?s3 = Some srt \<longrightarrow> sorter_lawful srt"
            using law f3 by simp
          from sort_now[OF f3(1,2) law3, of "Some runs'"] rz obtain s4 p n s5 where
            sn: "gtk_tim2_sort_model_start_sorting ?s3 (Some runs') = Inr (False, s4)"
              "gtk_tim2_sort_model_finish_sorting s4 = (p, n, s5)"
              "buffer_sorted s5" "sort_cb s5 = 0" "\<not> incremental s5" "sorter s5 = sorter ?s3"
            by auto
          from r1 nz sh stp ui ad obtain a b c where
            s': "s' = g_list_model_items_changed s5 a b c"
            by (auto simp: gtk_tim2_sort_model_items_changed_cb_def Let_def sn(1,2))
          have "buffer_sorted s'"
            using sn(3) buffer_sorted_cong[of s' s5] by (simp add: s' items_changed_fields)
          with sn f3 law show ?thesis
            by (simp add: sync_sorted_def s' items_changed_fields)
        qed
      qed
    qed
  qed
qed

lemma sync_sorted_init: "sync_sorted gtk_tim2_sort_model_init"
  by (simp add: sync_sorted_def gtk_tim2_sort_model_init_def gtk_tim2_sort_model_should_sort_def)

lemma example_sync_reached:
  "gtk_tim2_sort_model_new (Some example_source) (Some ascending_numeric)
     = Inr (example_sync [5, 3, 1, 4, 2] [(1, 2), (2, 4), (3, 1), (4, 3), (5, 0)]
              [(0, 0, 5), (0, 5, 5)] [])"
  "source_items_changed \<lparr>model_id = 1, model_items = [5, 3, 4, 2]\<rparr> 2 1 0
     (example_sync [5, 3, 1, 4, 2] [(1, 2), (2, 4), (3, 1), (4, 3), (5, 0)]
        [(0, 0, 5), (0, 5, 5)] [])
     = Inr (example_sync [5, 3, 4, 2] [(2, 3), (3, 1), (4, 2), (5, 0)]
              [(0, 0, 5), (0, 5, 5), (0, 1, 0)] [1])"
  "source_items_changed \<lparr>model_id = 1, model_items = [0, 5, 3, 1, 4, 2]\<rparr> 0 0 1
     (example_sync [5, 3, 1, 4, 2] [(1, 2), (2, 4), (3, 1), (4, 3), (5, 0)]
        [(0, 0, 5), (0, 5, 5)] [])
     = Inr (example_sync [0, 5, 3, 1, 4, 2] [(0, 0), (1, 3), (2, 5), (3, 2), (4, 4), (5, 1)]
              [(0, 0, 5), (0, 5, 5), (0, 5, 6)] [])"
  by (simp_all add: eval_defs example_sync_def)

lemma example_sync_view:
  "view (example_sync [5, 3, 1, 4, 2] [(1, 2), (2, 4), (3, 1), (4, 3), (5, 0)] em rel)
     = [Some 1, Some 2, Some 3, Some 4, Some 5]"
  "view (example_sync [5, 3, 4, 2] [(2, 3), (3, 1), (4, 2), (5, 0)] em rel)
     = [Some 2, Some 3, Some 4, Some 5]"
  "view (example_sync [0, 5, 3, 1, 4, 2] [(0, 0), (1, 3), (2, 5), (3, 2), (4, 4), (5, 1)] em rel)
     = [Some 0, Some 1, Some 2, Some 3, Some 4, Some 5]"
  by (simp_all add: eval_defs example_sync_def upt_rec)

text \<open>
  C1. In synchronous mode the buffer is fully sorted whenever sorting applies: a new
  model is at rest in synchronous mode; from a model at rest in synchronous mode, every
  population (\<^verbatim>\<open>set_model\<close>), sorter change (\<^verbatim>\<open>set_sorter\<close>, or the \<^verbatim>\<open>changed\<close> signal of the
  attached sorter) and source mutation (the \<^verbatim>\<open>items-changed\<close> signal of the attached
  source) that completes leaves a model at rest in synchronous mode; and in such a model,
  when a model and a sorter with an order other than \<^verbatim>\<open>NONE\<close> are set, no item of the
  buffer compares greater than the next. For the source \<open>[5, 3, 1, 4, 2]\<close> and the
  ascending comparison of numbers, \<^verbatim>\<open>get_item\<close> over the full range yields
  \<open>[1, 2, 3, 4, 5]\<close>.
\<close>

theorem synchronous_buffer_sorted:
  "sync_sorted (gtk_tim2_sort_model_init :: 'a gtk_tim2_sort_model)
   \<and> map_sum id view
         (gtk_tim2_sort_model_new (Some example_source) (Some ascending_numeric))
       = Inr [Some 1, Some 2, Some 3, Some 4, Some 5]
   \<and> (sync_sorted (s :: 'a gtk_tim2_sort_model) \<longrightarrow>
        (gtk_tim2_sort_model_should_sort s \<longrightarrow>
           (\<forall>i. Suc i < length (items s) \<longrightarrow>
              sort_func (items s ! i) (items s ! Suc i) (sorter s) \<noteq> GTK_ORDERING_LARGER))
        \<and> (gtk_tim2_sort_model_set_model s new_model = Inr s' \<longrightarrow> sync_sorted s')
        \<and> ((case new_sorter of None \<Rightarrow> True | Some srt \<Rightarrow> sorter_lawful srt) \<longrightarrow>
             gtk_tim2_sort_model_set_sorter s new_sorter = Inr s' \<longrightarrow> sync_sorted s')
        \<and> (sorter s \<noteq> None \<longrightarrow> sorter_lawful srt' \<longrightarrow>
             source_sorter_changed srt' change s = Inr s' \<longrightarrow> sync_sorted s')
        \<and> (model s \<noteq> None \<longrightarrow>
             source_items_changed m pos removed added s = Inr s' \<longrightarrow> sync_sorted s'))"
proof -
  have ex: "map_sum id view
         (gtk_tim2_sort_model_new (Some example_source) (Some ascending_numeric))
       = Inr [Some 1, Some 2, Some 3, Some 4, Some 5]"
    by (simp only: example_sync_reached(1) map_sum.simps example_sync_view(1))
  have adj: "sync_sorted s \<Longrightarrow> gtk_tim2_sort_model_should_sort s \<Longrightarrow>
           (\<forall>i. Suc i < length (items s) \<longrightarrow>
              sort_func (items s ! i) (items s ! Suc i) (sorter s) \<noteq> GTK_ORDERING_LARGER)"
    by (simp add: sync_sorted_def buffer_sorted_def)
  from sync_sorted_init ex adj set_model_sync[of s new_model s']
    set_sorter_sync[of s new_sorter s'] source_sorter_changed_sync[of s srt' change s']
    source_items_changed_sync[of s m pos removed added s']
  show ?thesis by blast
qed

theorem synchronous_buffer_sorted_witness:
  "sync_sorted (gtk_tim2_sort_model_init :: int gtk_tim2_sort_model)
   \<and> (\<exists>s1. gtk_tim2_sort_model_set_model gtk_tim2_sort_model_init (Some example_source) = Inr s1
          \<and> sync_sorted s1
          \<and> sorter_lawful ascending_numeric
          \<and> gtk_tim2_sort_model_set_sorter s1 (Some ascending_numeric)
              = Inr (example_sync [5, 3, 1, 4, 2] [(1, 2), (2, 4), (3, 1), (4, 3), (5, 0)]
                       [(0, 0, 5), (0, 5, 5)] []))
   \<and> sync_sorted (example_sync [5, 3, 1, 4, 2] [(1, 2), (2, 4), (3, 1), (4, 3), (5, 0)]
                    [(0, 0, 5), (0, 5, 5)] [])
   \<and> gtk_tim2_sort_model_should_sort
        (example_sync [5, 3, 1, 4, 2] [(1, 2), (2, 4), (3, 1), (4, 3), (5, 0)]
           [(0, 0, 5), (0, 5, 5)] [])
   \<and> buffer_sorted (example_sync [5, 3, 1, 4, 2] [(1, 2), (2, 4), (3, 1), (4, 3), (5, 0)]
                    [(0, 0, 5), (0, 5, 5)] [])
   \<and> source_items_changed \<lparr>model_id = 1, model_items = [5, 3, 4, 2]\<rparr> 2 1 0
        (example_sync [5, 3, 1, 4, 2] [(1, 2), (2, 4), (3, 1), (4, 3), (5, 0)]
           [(0, 0, 5), (0, 5, 5)] [])
       = Inr (example_sync [5, 3, 4, 2] [(2, 3), (3, 1), (4, 2), (5, 0)]
                [(0, 0, 5), (0, 5, 5), (0, 1, 0)] [1])
   \<and> sync_sorted (example_sync [5, 3, 4, 2] [(2, 3), (3, 1), (4, 2), (5, 0)]
                    [(0, 0, 5), (0, 5, 5), (0, 1, 0)] [1])
   \<and> (\<exists>s4. source_sorter_changed ascending_numeric GTK_SORTER_CHANGE_DIFFERENT
               (example_sync [5, 3, 4, 2] [(2, 3), (3, 1), (4, 2), (5, 0)]
                  [(0, 0, 5), (0, 5, 5), (0, 1, 0)] [1]) = Inr s4
          \<and> sync_sorted s4)"
proof -
  let ?S2 = "example_sync [5, 3, 1, 4, 2] [(1, 2), (2, 4), (3, 1), (4, 3), (5, 0)]
               [(0, 0, 5), (0, 5, 5)] []"
  let ?S3 = "example_sync [5, 3, 4, 2] [(2, 3), (3, 1), (4, 2), (5, 0)]
               [(0, 0, 5), (0, 5, 5), (0, 1, 0)] [1]"
  let ?i = "gtk_tim2_sort_model_init :: int gtk_tim2_sort_model"
  note T = synchronous_buffer_sorted
  have i0: "sync_sorted ?i" using T[where 'a = int] by blast
  obtain s1 where s1: "gtk_tim2_sort_model_set_model ?i (Some example_source) = Inr s1"
    by (simp add: eval_defs)
  have i1: "sync_sorted s1"
    using T[of ?i "Some example_source" s1] i0 s1 by blast
  have s2: "gtk_tim2_sort_model_set_sorter s1 (Some ascending_numeric) = Inr ?S2"
    using example_sync_reached(1) s1 by (simp add: gtk_tim2_sort_model_new_def)
  have i2: "sync_sorted ?S2"
    using T[of s1 _ ?S2 "Some ascending_numeric"] i1 s2 ascending_numeric_lawful by simp
  have sh2: "gtk_tim2_sort_model_should_sort ?S2"
    by (simp add: eval_defs example_sync_def)
  have b2: "buffer_sorted ?S2"
    using T[of ?S2] i2 sh2 unfolding buffer_sorted_def by blast
  have s3: "source_items_changed \<lparr>model_id = 1, model_items = [5, 3, 4, 2]\<rparr> 2 1 0 ?S2 = Inr ?S3"
    by (rule example_sync_reached(2))
  have m2: "model ?S2 \<noteq> None" by (simp add: example_sync_def)
  have i3: "sync_sorted ?S3"
    using T[of ?S2 _ ?S3 _ _ _ "\<lparr>model_id = 1, model_items = [5, 3, 4, 2]\<rparr>" 2 1 0] i2 s3 m2
    by blast
  obtain s4 where s4: "source_sorter_changed ascending_numeric GTK_SORTER_CHANGE_DIFFERENT ?S3
                        = Inr s4"
    by (simp add: eval_defs example_sync_def)
  have so3: "sorter ?S3 \<noteq> None" by (simp add: example_sync_def)
  have i4: "sync_sorted s4"
    using T[of ?S3 _ s4 _ ascending_numeric GTK_SORTER_CHANGE_DIFFERENT] i3 s4 so3
      ascending_numeric_lawful by blast
  from i0 s1 i1 s2 i2 sh2 b2 s3 i3 s4 i4 ascending_numeric_lawful show ?thesis by blast
qed

section \<open>A sorter that stops ordering\<close>

text \<open>
  The two loops of \<^verbatim>\<open>gtk_tim2_sort_model_clear_items\<close> find the smallest stretch of the
  buffer outside of which every item sits at its position in the source: the first loop
  stops at the first displaced item, the second at the last one.
\<close>

lemma clear_items_start_props:
  "k \<le> length arr \<Longrightarrow>
     k \<le> clear_items_start arr k \<and> clear_items_start arr k \<le> length arr
     \<and> (\<forall>i. k \<le> i \<and> i < clear_items_start arr k \<longrightarrow> position (arr ! i) = i)
     \<and> (clear_items_start arr k < length arr
          \<longrightarrow> position (arr ! clear_items_start arr k) \<noteq> clear_items_start arr k)"
proof (induction arr k rule: clear_items_start.induct)
  case (1 arr start)
  show ?case
  proof (cases "start < length arr \<and> position (arr ! start) = start")
    case True
    then have u: "clear_items_start arr start = clear_items_start arr (Suc start)"
      by (subst clear_items_start.simps) (simp add: sort_array_get_size_def)
    from True have "Suc start \<le> length arr" by simp
    from "1.IH"[OF _ _ this] True
    have IH: "Suc start \<le> clear_items_start arr (Suc start)
       \<and> clear_items_start arr (Suc start) \<le> length arr
       \<and> (\<forall>i. Suc start \<le> i \<and> i < clear_items_start arr (Suc start) \<longrightarrow> position (arr ! i) = i)
       \<and> (clear_items_start arr (Suc start) < length arr
          \<longrightarrow> position (arr ! clear_items_start arr (Suc start)) \<noteq> clear_items_start arr (Suc start))"
      by (simp add: sort_array_get_size_def)
    have sp: "\<And>i. start \<le> i \<Longrightarrow> i = start \<or> Suc start \<le> i" by arith
    show ?thesis unfolding u using IH True sp
      by (metis Suc_leD)
  next
    case False
    then have u: "clear_items_start arr start = start"
      by (subst clear_items_start.simps) (auto simp add: sort_array_get_size_def)
    show ?thesis unfolding u using False "1.prems" by auto
  qed
qed

lemma clear_items_end_props:
  "e \<le> length arr \<Longrightarrow>
     clear_items_end arr start e \<le> e
     \<and> (start \<le> e \<longrightarrow> start \<le> clear_items_end arr start e)
     \<and> (\<forall>i. clear_items_end arr start e \<le> i \<and> i < e \<longrightarrow> position (arr ! i) = i)
     \<and> (start < clear_items_end arr start e
          \<longrightarrow> position (arr ! (clear_items_end arr start e - 1))
                \<noteq> clear_items_end arr start e - 1)"
proof (induction arr start e rule: clear_items_end.induct)
  case (1 arr start e)
  show ?case
  proof (cases "e > start \<and> position (arr ! (e - 1)) = e - 1")
    case True
    then have u: "clear_items_end arr start e = clear_items_end arr start (e - 1)"
      by (subst clear_items_end.simps) simp
    from "1.prems" have "e - 1 \<le> length arr" by simp
    from "1.IH"[OF _ _ this] True
    have IH: "clear_items_end arr start (e - 1) \<le> e - 1
     \<and> (start \<le> e - 1 \<longrightarrow> start \<le> clear_items_end arr start (e - 1))
     \<and> (\<forall>i. clear_items_end arr start (e - 1) \<le> i \<and> i < e - 1 \<longrightarrow> position (arr ! i) = i)
     \<and> (start < clear_items_end arr start (e - 1)
          \<longrightarrow> position (arr ! (clear_items_end arr start (e - 1) - 1))
                \<noteq> clear_items_end arr start (e - 1) - 1)"
      by simp
    have "\<And>i. i < e \<Longrightarrow> \<not> i < e - 1 \<Longrightarrow> i = e - 1" by arith
    with IH True show ?thesis unfolding u
      by (auto simp: less_Suc_eq_le)
  next
    case False
    then have u: "clear_items_end arr start e = e"
      by (subst clear_items_end.simps) auto
    show ?thesis unfolding u using False by auto
  qed
qed

lemma clear_items_range:
  assumes len: "length (items self) < 2 ^ 32"
    and ci: "gtk_tim2_sort_model_clear_items self True = (pos, n, self')"
  shows "pos + n \<le> length (items self)"
    and "\<forall>i < length (items self). i < pos \<or> pos + n \<le> i \<longrightarrow> position (items self ! i) = i"
    and "0 < n \<longrightarrow> position (items self ! pos) \<noteq> pos
                   \<and> position (items self ! (pos + n - 1)) \<noteq> pos + n - 1"
    and "released self' = released self @ held_handles (items self)"
proof -
  let ?arr = "items self"
  let ?s = "clear_items_start ?arr 0"
  let ?e = "clear_items_end ?arr ?s (length ?arr)"
  have it: "items (fst (gtk_tim2_sort_model_stop_sorting self False)) = ?arr"
    and rl: "released (fst (gtk_tim2_sort_model_stop_sorting self False)) = released self"
    by (simp_all add: gtk_tim2_sort_model_stop_sorting_def)
  have g: "guint (sort_array_get_size ?arr) = length ?arr"
    using len by (simp add: guint_def sort_array_get_size_def)
  from clear_items_start_props[of 0 ?arr]
  have sp: "?s \<le> length ?arr" "\<forall>i. i < ?s \<longrightarrow> position (?arr ! i) = i"
    "?s < length ?arr \<longrightarrow> position (?arr ! ?s) \<noteq> ?s" by simp_all
  from clear_items_end_props[of "length ?arr" ?arr ?s] sp(1)
  have ep: "?e \<le> length ?arr" "?s \<le> ?e"
    "\<forall>i. ?e \<le> i \<and> i < length ?arr \<longrightarrow> position (?arr ! i) = i"
    "?s < ?e \<longrightarrow> position (?arr ! (?e - 1)) \<noteq> ?e - 1" by simp_all
  have gs: "guint_sub ?e ?s = ?e - ?s"
    using ep(1,2) len by (intro guint_sub_exact) simp_all
  from ci have n: "n = ?e - ?s" and p: "pos = (if ?e - ?s = 0 then 0 else ?s)"
    and r: "released self' = sort_array_free_items ?arr (released self)"
    by (auto simp: gtk_tim2_sort_model_clear_items_def Let_def it rl g gs sort_array_clear_def
          split: if_splits)
  show "pos + n \<le> length (items self)" using n p ep by auto
  show "\<forall>i < length (items self). i < pos \<or> pos + n \<le> i \<longrightarrow> position (items self ! i) = i"
  proof (intro allI impI)
    fix i assume i: "i < length ?arr" and o: "i < pos \<or> pos + n \<le> i"
    have "i < ?s \<or> ?e \<le> i" using o n p ep(2) by (auto split: if_splits)
    then show "position (?arr ! i) = i" using sp(2) ep(3) i by blast
  qed
  show "0 < n \<longrightarrow> position (items self ! pos) \<noteq> pos
                   \<and> position (items self ! (pos + n - 1)) \<noteq> pos + n - 1"
  proof
    assume "0 < n"
    then have lt: "?s < ?e" and ps: "pos = ?s" and pe: "pos + n - 1 = ?e - 1"
      using n p by auto
    from lt ep(1) have "?s < length ?arr" by simp
    with sp(3) ep(4) lt have "position (?arr ! ?s) \<noteq> ?s \<and> position (?arr ! (?e - 1)) \<noteq> ?e - 1"
      by blast
    then show "position (items self ! pos) \<noteq> pos
                   \<and> position (items self ! (pos + n - 1)) \<noteq> pos + n - 1"
      unfolding pe unfolding ps .
  qed
  show "released self' = released self @ held_handles (items self)"
    using r by (simp add: free_items_held)
qed

text \<open>
  C4. When the sorter reports \<^verbatim>\<open>GTK_SORTER_ORDER_NONE\<close> through its \<^verbatim>\<open>changed\<close> signal,
  the handler succeeds, the buffer is cleared, no sort is pending, and the model passes
  every \<^verbatim>\<open>get_item\<close> through to the source. One notification \<open>(pos, n, n)\<close> is emitted
  when \<open>n > 0\<close>, none otherwise, where \<open>[pos, pos + n)\<close> is the smallest stretch of the
  buffer that holds every item whose place in the buffer was not its position in the
  source: outside of it every item was in place, its first and its last item were
  displaced, and \<open>n = 0\<close> when every item was in place. The stretch is the full range only
  when the first and the last item of the buffer were both displaced.
\<close>

theorem sorter_order_none_clears:
  assumes none: "gtk_sorter_get_order srt = GTK_SORTER_ORDER_NONE"
    and len: "length (items self) < 2 ^ 32"
  shows "\<exists>self' pos n.
           gtk_tim2_sort_model_sorter_changed_cb srt change self = Inr self'
           \<and> items self' = [] \<and> \<not> gtk_tim2_sort_model_is_sorting self'
           \<and> model self' = model self
           \<and> (\<forall>i. gtk_tim2_sort_model_get_item self' i
                    = (case model self of None \<Rightarrow> None
                       | Some m \<Rightarrow> g_list_model_get_item m i))
           \<and> emitted self' = emitted self @ (if 0 < n then [(pos, n, n)] else [])
           \<and> pos + n \<le> length (items self)
           \<and> (\<forall>i < length (items self).
                 i < pos \<or> pos + n \<le> i \<longrightarrow> position (items self ! i) = i)
           \<and> (0 < n \<longrightarrow> position (items self ! pos) \<noteq> pos
                        \<and> position (items self ! (pos + n - 1)) \<noteq> pos + n - 1)
           \<and> ((\<forall>i < length (items self). position (items self ! i) = i) \<longrightarrow> n = 0)"
proof -
  obtain pos n s1 where ci: "gtk_tim2_sort_model_clear_items self True = (pos, n, s1)"
    by (metis prod_cases3)
  note cf = clear_items_fields[OF ci]
  note cr = clear_items_range[OF len ci]
  define s' where "s' = (if 0 < n then g_list_model_items_changed s1 pos n n else s1)"
  have r: "gtk_tim2_sort_model_sorter_changed_cb srt change self = Inr s'"
    using none ci by (simp add: gtk_tim2_sort_model_sorter_changed_cb_def s'_def)
  have f: "items s' = []" "sort_cb s' = 0" "model s' = model self"
    by (simp_all add: items_changed_fields cf s'_def)
  have em: "emitted s' = emitted self @ (if 0 < n then [(pos, n, n)] else [])"
    by (simp add: g_list_model_items_changed_def cf s'_def)
  have gi: "\<forall>i. gtk_tim2_sort_model_get_item s' i
                    = (case model self of None \<Rightarrow> None
                       | Some m \<Rightarrow> g_list_model_get_item m i)"
    using f by (simp add: gtk_tim2_sort_model_get_item_def sort_array_is_empty_def
        split: option.splits)
  have z: "(\<forall>i < length (items self). position (items self ! i) = i) \<longrightarrow> n = 0"
  proof (rule impI, rule ccontr)
    assume a: "\<forall>i < length (items self). position (items self ! i) = i" and "n \<noteq> 0"
    then have "0 < n" by simp
    with cr(1,3) a show False by simp
  qed
  show ?thesis
    using r f em gi cr(1,2,3) z
    by (intro exI[of _ s'] exI[of _ pos] exI[of _ n])
       (simp add: gtk_tim2_sort_model_is_sorting_def)
qed

theorem sorter_order_none_clears_witness:
  "gtk_sorter_get_order unordered = GTK_SORTER_ORDER_NONE
   \<and> length (items (example_sync [1, 2, 5, 3, 4] [(1, 0), (2, 1), (3, 3), (4, 4), (5, 2)]
                      [(0, 0, 5), (0, 5, 5)] [])) < 2 ^ 32
   \<and> (\<exists>self'.
         gtk_tim2_sort_model_sorter_changed_cb unordered GTK_SORTER_CHANGE_DIFFERENT
           (example_sync [1, 2, 5, 3, 4] [(1, 0), (2, 1), (3, 3), (4, 4), (5, 2)]
              [(0, 0, 5), (0, 5, 5)] []) = Inr self'
         \<and> items self' = [] \<and> \<not> gtk_tim2_sort_model_is_sorting self'
         \<and> view self' = [Some 1, Some 2, Some 5, Some 3, Some 4]
         \<and> emitted self' = [(0, 0, 5), (0, 5, 5), (2, 3, 3)])"
proof -
  let ?S = "example_sync [1, 2, 5, 3, 4] [(1, 0), (2, 1), (3, 3), (4, 4), (5, 2)]
              [(0, 0, 5), (0, 5, 5)] []"
  have h1: "gtk_sorter_get_order unordered = GTK_SORTER_ORDER_NONE"
    by (simp add: unordered_def gtk_sorter_get_order_def)
  have it: "items ?S = [\<lparr>item = Some 1, position = 0\<rparr>, \<lparr>item = Some 2, position = 1\<rparr>,
                        \<lparr>item = Some 3, position = 3\<rparr>, \<lparr>item = Some 4, position = 4\<rparr>,
                        \<lparr>item = Some 5, position = 2\<rparr>]"
    and em: "emitted ?S = [(0, 0, 5), (0, 5, 5)]"
    and mo: "model ?S = Some \<lparr>model_id = 1, model_items = [1, 2, 5, 3, 4]\<rparr>"
    by (simp_all add: example_sync_def)
  have h2: "length (items ?S) < 2 ^ 32" by (simp add: example_sync_def)
  from sorter_order_none_clears [OF h1 h2, of GTK_SORTER_CHANGE_DIFFERENT]
  obtain self' pos n where
    r: "gtk_tim2_sort_model_sorter_changed_cb unordered GTK_SORTER_CHANGE_DIFFERENT ?S
          = Inr self'"
    and e: "items self' = []" and ns: "\<not> gtk_tim2_sort_model_is_sorting self'"
    and m: "model self' = model ?S"
    and gi: "\<forall>i. gtk_tim2_sort_model_get_item self' i
                    = (case model ?S of None \<Rightarrow> None
                       | Some m \<Rightarrow> g_list_model_get_item m i)"
    and emi: "emitted self' = emitted ?S @ (if 0 < n then [(pos, n, n)] else [])"
    and le: "pos + n \<le> length (items ?S)"
    and fr: "\<forall>i < length (items ?S).
                 i < pos \<or> pos + n \<le> i \<longrightarrow> position (items ?S ! i) = i"
    and en: "0 < n \<longrightarrow> position (items ?S ! pos) \<noteq> pos
                        \<and> position (items ?S ! (pos + n - 1)) \<noteq> pos + n - 1"
    by blast
  have f2: "2 < length (items ?S) \<and> position (items ?S ! 2) \<noteq> 2"
    and f4: "4 < length (items ?S) \<and> position (items ?S ! 4) \<noteq> 4"
    by (simp_all add: example_sync_def)
  from fr f2 have "\<not> (2 < pos \<or> pos + n \<le> 2)" by blast
  then have a: "pos \<le> 2 \<and> 2 < pos + n" by arith
  from fr f4 have "\<not> (4 < pos \<or> pos + n \<le> 4)" by blast
  then have b: "4 < pos + n" by arith
  from le have c: "pos + n \<le> 5" by (simp add: example_sync_def)
  from a have "0 < n" by arith
  with en have d: "position (items ?S ! pos) \<noteq> pos" by blast
  from a have "pos = 0 \<or> pos = 1 \<or> pos = 2" by arith
  with d have p: "pos = 2" by (auto simp add: example_sync_def)
  with b c have n: "n = 3" by arith
  have v: "view self' = [Some 1, Some 2, Some 5, Some 3, Some 4]"
    unfolding view_def gtk_tim2_sort_model_get_n_items_def e m mo
    by (simp add: gi [unfolded mo]
          sort_array_is_empty_def g_list_model_get_n_items_def g_list_model_get_item_def
          guint_def upt_rec)
  from emi have "emitted self' = [(0, 0, 5), (0, 5, 5), (2, 3, 3)]"
    unfolding em by (simp add: p n)
  with h1 h2 r e ns v show ?thesis by blast
qed

text \<open>
  The notification is not the full range in general. The source \<open>[1, 2, 5, 3, 4]\<close>, sorted
  by the example sorter, has its first two items in place: when the sorter stops
  ordering, the model emits \<open>(2, 3, 3)\<close> and not \<open>(0, 5, 5)\<close>. The source \<open>[1, 2, 3]\<close> is
  sorted as it is: the model emits nothing, although the buffer held three items.
\<close>

theorem sorter_order_none_minimal_range:
  "gtk_tim2_sort_model_new (Some \<lparr>model_id = 1, model_items = [1, 2, 5, 3, 4]\<rparr>)
       (Some ascending_numeric)
     = Inr (example_sync [1, 2, 5, 3, 4] [(1, 0), (2, 1), (3, 3), (4, 4), (5, 2)]
              [(0, 0, 5), (0, 5, 5)] [])
   \<and> map_sum id (\<lambda>self. (items self, emitted self))
        (source_sorter_changed unordered GTK_SORTER_CHANGE_DIFFERENT
           (example_sync [1, 2, 5, 3, 4] [(1, 0), (2, 1), (3, 3), (4, 4), (5, 2)]
              [(0, 0, 5), (0, 5, 5)] []))
     = Inr ([], [(0, 0, 5), (0, 5, 5), (2, 3, 3)])
   \<and> gtk_tim2_sort_model_new (Some \<lparr>model_id = 1, model_items = [1, 2, 3]\<rparr>)
       (Some ascending_numeric)
     = Inr (example_sync [1, 2, 3] [(1, 0), (2, 1), (3, 2)] [(0, 0, 3)] [])
   \<and> map_sum id (\<lambda>self. (items self, emitted self))
        (source_sorter_changed unordered GTK_SORTER_CHANGE_DIFFERENT
           (example_sync [1, 2, 3] [(1, 0), (2, 1), (3, 2)] [(0, 0, 3)] []))
     = Inr ([], [(0, 0, 3)])"
proof -
  let ?L = "map (\<lambda>(h, p). \<lparr>item = Some h, position = p\<rparr>)
              [(1 :: int, 0), (2, 1), (3, 3), (4, 4), (5, 2)]"
  let ?K = "map (\<lambda>(h, p). \<lparr>item = Some h, position = p\<rparr>) [(1 :: int, 0), (2, 1), (3, 2)]"
  have s: "clear_items_start ?L 0 = 2" "clear_items_start ?K 0 = 3"
    by (simp_all add: clear_items_start.simps sort_array_get_size_def)
  have e: "clear_items_end ?L 2 5 = 5" "clear_items_end ?K 3 3 = 3"
    by (simp_all add: clear_items_end.simps)
  have a: "gtk_tim2_sort_model_new (Some \<lparr>model_id = 1, model_items = [1, 2, 5, 3, 4]\<rparr>)
       (Some ascending_numeric)
     = Inr (example_sync [1, 2, 5, 3, 4] [(1, 0), (2, 1), (3, 3), (4, 4), (5, 2)]
              [(0, 0, 5), (0, 5, 5)] [])"
    by (simp add: eval_defs example_sync_def)
  have b: "map_sum id (\<lambda>self. (items self, emitted self))
        (source_sorter_changed unordered GTK_SORTER_CHANGE_DIFFERENT
           (example_sync [1, 2, 5, 3, 4] [(1, 0), (2, 1), (3, 3), (4, 4), (5, 2)]
              [(0, 0, 5), (0, 5, 5)] []))
     = Inr ([], [(0, 0, 5), (0, 5, 5), (2, 3, 3)])"
    using s(1) e(1)
    by (simp add: eval_defs example_sync_def unordered_def gtk_tim2_sort_model_clear_items_def)
  have c: "gtk_tim2_sort_model_new (Some \<lparr>model_id = 1, model_items = [1, 2, 3]\<rparr>)
       (Some ascending_numeric)
     = Inr (example_sync [1, 2, 3] [(1, 0), (2, 1), (3, 2)] [(0, 0, 3)] [])"
    by (simp add: eval_defs example_sync_def)
  have d: "map_sum id (\<lambda>self. (items self, emitted self))
        (source_sorter_changed unordered GTK_SORTER_CHANGE_DIFFERENT
           (example_sync [1, 2, 3] [(1, 0), (2, 1), (3, 2)] [(0, 0, 3)] []))
     = Inr ([], [(0, 0, 3)])"
    using s(2) e(2)
    by (simp add: eval_defs example_sync_def unordered_def gtk_tim2_sort_model_clear_items_def)
  from a b c d show ?thesis by (intro conjI)
qed

section \<open>The length of the buffer\<close>

text \<open>
  \<^verbatim>\<open>get_n_items\<close> never looks at the buffer: it is the length of the source, and 0 without
  one. In synchronous mode, when sorting applies, a change \<open>(pos, removed, added)\<close> of the
  source that the handler survives leaves a buffer with \<open>removed\<close> items less and \<open>added\<close>
  items more: the buffer is as long as the source after the change if it was before.
\<close>

lemma length_append_items_loop:
  "length (append_items_loop m i bound arr) = length arr + (bound - i)"
proof (induction m i bound arr rule: append_items_loop.induct)
  case (1 m i bound arr)
  show ?case
  proof (cases "i < bound")
    case True
    from "1.IH"[OF True] True show ?thesis
      by (subst append_items_loop.simps) (simp add: sort_array_append_def)
  next
    case False
    then show ?thesis by (subst append_items_loop.simps) simp
  qed
qed

lemma source_items_changed_length:
  assumes inv: "sync_sorted s" and att: "model s \<noteq> None"
    and sh0: "gtk_tim2_sort_model_should_sort s"
    and len: "length (items s) < 2 ^ 32" and rm: "removed < 2 ^ 32"
    and ad: "pos + added < 2 ^ 32"
    and r: "source_items_changed m pos removed added s = Inr s'"
  shows "length (items s') + removed = length (items s) + added"
proof -
  let ?s1 = "s\<lparr>model := Some m\<rparr>"
  have sh: "gtk_tim2_sort_model_should_sort ?s1"
    using att sh0 by (simp add: gtk_tim2_sort_model_should_sort_def split: option.splits)
  have f1: "\<not> incremental ?s1" "sort_cb ?s1 = 0"
    and law: "\<forall>srt. sorter ?s1 = Some srt \<longrightarrow> sorter_lawful srt"
    using inv by (simp_all add: sync_sorted_def)
  from r have r1: "gtk_tim2_sort_model_items_changed_cb m pos removed added ?s1 = Inr s'"
    by (simp add: source_items_changed_def)
  show ?thesis
  proof (cases "removed = 0 \<and> added = 0")
    case True
    with r1 have "s' = ?s1" by (simp add: gtk_tim2_sort_model_items_changed_cb_def)
    with True show ?thesis by simp
  next
    case nz: False
    let ?runs = "[sort_array_get_size (items ?s1), 0]"
    have stp: "gtk_tim2_sort_model_stop_sorting ?s1 True = (?s1, ?runs)"
      using f1(2) by (simp add: stop_sorting_idle)
    have ws: "\<not> gtk_tim2_sort_model_is_sorting ?s1"
      using f1(2) by (simp add: gtk_tim2_sort_model_is_sorting_def)
    show ?thesis
    proof (cases "gtk_tim2_sort_model_update_items ?s1 ?runs pos removed added")
      case (Inl err)
      with r1 nz sh stp show ?thesis
        by (auto simp: gtk_tim2_sort_model_items_changed_cb_def Let_def)
    next
      case (Inr res)
      then obtain s2 runs' st e where
        ui: "gtk_tim2_sort_model_update_items ?s1 ?runs pos removed added
               = Inr (s2, runs', st, e)"
        by (metis prod_cases4)
      have len1: "length (items ?s1) < 2 ^ 32" using len by simp
      from update_items_result[OF len1 ui] rm
      have l2: "length (items s2) + removed = length (items s)" and rz: "runs' = [0, 0]"
        and m2: "model s2 = Some m"
        and f2: "\<not> incremental s2" "sort_cb s2 = 0" "sorter s2 = sorter ?s1"
        using f1 by simp_all
      show ?thesis
      proof (cases "added > 0")
        case False
        with r1 nz sh stp ui ws obtain a b c where
          s': "s' = g_list_model_items_changed s2 a b c"
          by (auto simp: gtk_tim2_sort_model_items_changed_cb_def Let_def)
        with l2 False show ?thesis by (simp add: items_changed_fields)
      next
        case adp: True
        let ?s3 = "s2\<lparr>items := (case model s2 of None \<Rightarrow> items s2
                    | Some m \<Rightarrow> append_items_loop m pos (guint_add pos added) (items s2))\<rparr>"
        have f3: "\<not> incremental ?s3" "sort_cb ?s3 = 0" "sorter ?s3 = sorter ?s1"
          using f2 by simp_all
        have law3: "\<forall>srt. sorter ?s3 = Some srt \<longrightarrow> sorter_lawful srt"
          using law f3 by simp
        have ga: "guint_add pos added = pos + added"
          using ad by (simp add: guint_add_exact)
        have l3: "length (items ?s3) = length (items s2) + added"
          by (simp add: m2 length_append_items_loop ga)
        from sort_now[OF f3(1,2) law3, of "Some runs'"] rz obtain s4 p n s5 where
          sn: "gtk_tim2_sort_model_start_sorting ?s3 (Some runs') = Inr (False, s4)"
            "gtk_tim2_sort_model_finish_sorting s4 = (p, n, s5)"
            "mset (items s5) = mset (items ?s3)"
          by auto
        from r1 nz sh stp ui adp obtain a b c where
          s': "s' = g_list_model_items_changed s5 a b c"
          by (auto simp: gtk_tim2_sort_model_items_changed_cb_def Let_def sn(1,2))
        from sn(3) have "length (items s5) = length (items ?s3)" by (rule mset_eq_length)
        with l3 l2 show ?thesis by (simp add: s' items_changed_fields)
      qed
    qed
  qed
qed

text \<open>
  C3. The buffer is not always empty or as long as the source when sorting applies.
  \<^verbatim>\<open>gtk_tim2_sort_model_set_sorter (self, NULL)\<close> calls
  \<^verbatim>\<open>gtk_tim2_sort_model_clear_sorter\<close>, which leaves the buffer as it is, where
  \<^verbatim>\<open>gtk_tim2_sort_model_clear_model\<close> and the handler of a sorter without order clear it.
  Without a sorter the handler of the source's changes forwards them and leaves the
  buffer alone, and \<^verbatim>\<open>gtk_tim2_sort_model_sorter_changed_cb\<close> creates the items only when
  the buffer is empty. So at the end of \<open>stale_buffer_run\<close> sorting applies and the buffer
  holds the three items of the old source, while the source, and \<^verbatim>\<open>get_n_items\<close>, have
  four: \<^verbatim>\<open>get_item\<close> is \<^verbatim>\<open>NULL\<close> at position 3 and \<open>4\<close> is nowhere. When the source then
  removes its last element, the assertion of \<^verbatim>\<open>gtk_tim2_sort_model_update_items\<close> fails.
\<close>

theorem stale_buffer_after_sorter_removed:
  "stale_buffer_run
     = Inr (example_sync [5, 3, 1, 4] [(1, 2), (3, 1), (5, 0)]
              [(0, 0, 3), (0, 3, 3), (0, 3, 3), (3, 0, 1)] [])
   \<and> gtk_tim2_sort_model_should_sort
        (example_sync [5, 3, 1, 4] [(1, 2), (3, 1), (5, 0)]
           [(0, 0, 3), (0, 3, 3), (0, 3, 3), (3, 0, 1)] [])
   \<and> length (items (example_sync [5, 3, 1, 4] [(1, 2), (3, 1), (5, 0)]
                      [(0, 0, 3), (0, 3, 3), (0, 3, 3), (3, 0, 1)] [])) = 3
   \<and> gtk_tim2_sort_model_get_n_items
        (example_sync [5, 3, 1, 4] [(1, 2), (3, 1), (5, 0)]
           [(0, 0, 3), (0, 3, 3), (0, 3, 3), (3, 0, 1)] []) = 4
   \<and> view (example_sync [5, 3, 1, 4] [(1, 2), (3, 1), (5, 0)]
              [(0, 0, 3), (0, 3, 3), (0, 3, 3), (3, 0, 1)] [])
     = [Some 1, Some 3, Some 5, None]
   \<and> source_items_changed \<lparr>model_id = 1, model_items = [5, 3, 1]\<rparr> 3 1 0
        (example_sync [5, 3, 1, 4] [(1, 2), (3, 1), (5, 0)]
           [(0, 0, 3), (0, 3, 3), (0, 3, 3), (3, 0, 1)] [])
     = Inl Assertion_failed"
proof -
  let ?S = "example_sync [5, 3, 1, 4] [(1, 2), (3, 1), (5, 0)]
              [(0, 0, 3), (0, 3, 3), (0, 3, 3), (3, 0, 1)] []"
  have a: "stale_buffer_run = Inr ?S"
    by (simp add: eval_defs stale_buffer_run_def and_then_def example_sync_def)
  have b: "gtk_tim2_sort_model_should_sort ?S"
    by (simp add: eval_defs example_sync_def)
  have c: "length (items ?S) = 3" by (simp add: example_sync_def)
  have d: "gtk_tim2_sort_model_get_n_items ?S = 4"
    by (simp add: eval_defs example_sync_def)
  have e: "view ?S = [Some 1, Some 3, Some 5, None]"
    by (simp add: eval_defs example_sync_def upt_rec)
  have f: "source_items_changed \<lparr>model_id = 1, model_items = [5, 3, 1]\<rparr> 3 1 0 ?S
             = Inl Assertion_failed"
    by (simp add: eval_defs example_sync_def)
  from a b c d e f show ?thesis by (intro conjI)
qed

end
